theory Spec2Isabelle
  imports Complex_Main "HOL-Library.Sublist"
begin

section \<open>JavaScript strings\<close>

text \<open>
  A JavaScript string is modelled as a \<^typ>\<open>string\<close>: one \<^typ>\<open>char\<close> per code unit,
  for code units below 256. All patterns of the program are ASCII. The regular
  expressions of the program have no \<open>u\<close> flag, so they work on code units.
\<close>

abbreviation NL :: char where "NL \<equiv> CHR 0x0A"
abbreviation DQ :: char where "DQ \<equiv> CHR 0x22"
abbreviation SQ :: char where "SQ \<equiv> CHR 0x27"
abbreviation BSL :: char where "BSL \<equiv> CHR 0x5C"
abbreviation BTK :: char where "BTK \<equiv> CHR 0x60"

text \<open>LineTerminator of ECMAScript (U+2028 and U+2029 lie outside the code units modelled).\<close>

definition isLineTerminator :: "char \<Rightarrow> bool" where
  "isLineTerminator c = (c = NL \<or> c = CHR 0x0D)"

text \<open>What \<open>\s\<close> and \<open>String.prototype.trim\<close> take for white space: TAB, LF, VT, FF, CR,
  SPACE and NBSP (the other Unicode spaces lie outside the code units modelled).\<close>

definition isSpace :: "char \<Rightarrow> bool" where
  "isSpace c = (c \<in> set [CHR 0x09, NL, CHR 0x0B, CHR 0x0C, CHR 0x0D, CHR 0x20, CHR 0xA0])"

text \<open>\<open>str.trim()\<close>\<close>

definition trim :: "string \<Rightarrow> string" where
  "trim s = rev (dropWhile isSpace (rev (dropWhile isSpace s)))"

text \<open>
  \<open>str.replace(/lit/g, rep)\<close> for a pattern that is a literal text and a replacement
  without \<open>$\<close>: the leftmost occurrence is replaced, and the scan goes on behind it.
\<close>

function replaceAll :: "string \<Rightarrow> string \<Rightarrow> string \<Rightarrow> string" where
  "replaceAll pat rep s =
     (if pat = [] then s
      else if s = [] then []
      else if prefix pat s then rep @ replaceAll pat rep (drop (length pat) s)
      else hd s # replaceAll pat rep (tl s))"
  by pat_completeness auto
termination
  by (relation "measure (\<lambda>(pat, rep, s). length s)") auto

declare replaceAll.simps [simp del]

text \<open>\<open>str.replace(lit, rep)\<close> with a string pattern: only the first occurrence.\<close>

fun replaceFirst :: "string \<Rightarrow> string \<Rightarrow> string \<Rightarrow> string" where
  "replaceFirst pat rep [] = (if pat = [] then rep else [])"
| "replaceFirst pat rep (c # cs) =
     (if prefix pat (c # cs) then rep @ drop (length pat) (c # cs)
      else c # replaceFirst pat rep cs)"

text \<open>\<open>str.split(sep)[0]\<close> for a non-empty separator: the text before its first occurrence,
  the whole text when it does not occur.\<close>

fun splitHead :: "string \<Rightarrow> string \<Rightarrow> string" where
  "splitHead sep [] = []"
| "splitHead sep (c # cs) = (if prefix sep (c # cs) then [] else c # splitHead sep cs)"

subsection \<open>The Template Escaper (markdownToVue.ts, lines 50-52, 98-100 and 119-121)\<close>

definition escapeEnv :: "string \<Rightarrow> string" where
  "escapeEnv html =
     replaceAll ''process.env'' ''process.<wbr/>env''
       (replaceAll ''import.meta'' ''import.<wbr/>meta'' html)"

section \<open>Regular expressions\<close>

text \<open>
  The regular expressions of the program that are not literal texts are run by a
  backtracking matcher that follows ECMAScript's: a pattern is a tree, a match state is
  the position reached and the captures made, and matching a pattern from a state gives
  the list of the states it can end in, in the order in which a backtracking search
  tries them. The head of the list is the match that JavaScript finds.
\<close>

type_synonym caps = "nat \<Rightarrow> string option"
type_synonym mstate = "nat \<times> caps"

datatype regex =
    Lit char \<comment> \<open>a character\<close>
  | Dot \<comment> \<open>\<open>.\<close>: any character but a line terminator\<close>
  | Cls "char list" \<comment> \<open>\<open>[abc]\<close>\<close>
  | NCls "char list" \<comment> \<open>\<open>[^abc]\<close>\<close>
  | Space \<comment> \<open>\<open>\s\<close>\<close>
  | Bol \<comment> \<open>\<open>^\<close>\<close>
  | Eol \<comment> \<open>\<open>$\<close>\<close>
  | Cat regex regex
  | Alt regex regex
  | Rep bool nat "nat option" regex \<comment> \<open>greedy?, least, most (None: no bound), body\<close>
  | Grp nat regex \<comment> \<open>the capturing group of that number\<close>
  | Bref nat \<comment> \<open>\<open>\n\<close>\<close>

primrec rsize :: "regex \<Rightarrow> nat" where
  "rsize (Lit c) = 0"
| "rsize Dot = 0"
| "rsize (Cls cs) = 0"
| "rsize (NCls cs) = 0"
| "rsize Space = 0"
| "rsize Bol = 0"
| "rsize Eol = 0"
| "rsize (Cat a b) = Suc (rsize a + rsize b)"
| "rsize (Alt a b) = Suc (rsize a + rsize b)"
| "rsize (Rep g mn mx r) = Suc (rsize r)"
| "rsize (Grp n r) = Suc (rsize r)"
| "rsize (Bref n) = 0"

primrec rmin :: "regex \<Rightarrow> nat" where
  "rmin (Lit c) = 0"
| "rmin Dot = 0"
| "rmin (Cls cs) = 0"
| "rmin (NCls cs) = 0"
| "rmin Space = 0"
| "rmin Bol = 0"
| "rmin Eol = 0"
| "rmin (Cat a b) = 0"
| "rmin (Alt a b) = 0"
| "rmin (Rep g mn mx r) = mn"
| "rmin (Grp n r) = 0"
| "rmin (Bref n) = 0"

text \<open>One character that satisfies \<open>ok\<close>.\<close>

definition step :: "string \<Rightarrow> (char \<Rightarrow> bool) \<Rightarrow> mstate \<Rightarrow> mstate list" where
  "step s ok st = (if fst st < length s \<and> ok (s ! fst st) then [(Suc (fst st), snd st)] else [])"

text \<open>An assertion: no character is read.\<close>

definition cond :: "bool \<Rightarrow> mstate \<Rightarrow> mstate list" where
  "cond b st = (if b then [st] else [])"

text \<open>
  \<open>ms ml s r st\<close>: the pattern \<open>r\<close> on the text \<open>s\<close> from the state \<open>st\<close>; \<open>ml\<close> is the
  \<open>m\<close> flag. A quantifier follows ECMAScript's RepeatMatcher: with a least count of zero, a
  round that reads nothing is given up; a greedy one tries another round before it
  stops, a lazy one stops first. The two tests \<open>fst st' < fst st\<close> and
  \<open>length s < fst st'\<close> never hold (\<open>ms_bounds\<close> below); they are
  there for the termination proof. ECMAScript resets the groups inside a
  quantifier's body on every round: no quantifier of the program holds a group.
\<close>

function ms :: "bool \<Rightarrow> string \<Rightarrow> regex \<Rightarrow> mstate \<Rightarrow> mstate list" where
  "ms ml s (Lit c) st = step s (\<lambda>x. x = c) st"
| "ms ml s Dot st = step s (\<lambda>x. \<not> isLineTerminator x) st"
| "ms ml s (Cls cs) st = step s (\<lambda>x. x \<in> set cs) st"
| "ms ml s (NCls cs) st = step s (\<lambda>x. x \<notin> set cs) st"
| "ms ml s Space st = step s isSpace st"
| "ms ml s Bol st =
     cond (fst st = 0 \<or> (ml \<and> fst st \<le> length s \<and> isLineTerminator (s ! (fst st - 1)))) st"
| "ms ml s Eol st =
     cond (fst st = length s \<or> (ml \<and> fst st < length s \<and> isLineTerminator (s ! fst st))) st"
| "ms ml s (Cat a b) st = concat (map (ms ml s b) (ms ml s a st))"
| "ms ml s (Alt a b) st = ms ml s a st @ ms ml s b st"
| "ms ml s (Grp n r) st =
     map (\<lambda>st'. (fst st', (snd st')(n \<mapsto> take (fst st' - fst st) (drop (fst st) s))))
       (ms ml s r st)"
| "ms ml s (Bref n) st =
     (case snd st n of
        None \<Rightarrow> [st]
      | Some t \<Rightarrow> cond (take (length t) (drop (fst st) s) = t) (fst st + length t, snd st))"
| "ms ml s (Rep g mn mx r) st =
     (if mx = Some 0 then [st]
      else
        let more = concat (map (\<lambda>st'.
              if (mn = 0 \<and> fst st' = fst st) \<or> fst st' < fst st \<or> length s < fst st' then []
              else ms ml s (Rep g (mn - 1) (map_option (\<lambda>k. k - 1) mx) r) st')
            (ms ml s r st))
        in if mn \<noteq> 0 then more else if g then more @ [st] else st # more)"
  by pat_completeness auto
termination
  by (relation "inv_image (less_than <*lex*> less_than <*lex*> less_than)
        (\<lambda>(ml, s, r, st). (rsize r, rmin r, length s - fst st))") auto

text \<open>
  RegExpBuiltinExec without the \<open>y\<close> flag: the match is tried at the start index, then at
  each later one, up to the end of the text. The result is the number of start
  indices that were passed over and the state of the match.
\<close>

primrec first_match :: "bool \<Rightarrow> string \<Rightarrow> regex \<Rightarrow> nat \<Rightarrow> nat \<Rightarrow> (nat \<times> mstate) option" where
  "first_match ml s r i 0 = None"
| "first_match ml s r i (Suc n) =
     (case ms ml s r (i, Map.empty) of
        [] \<Rightarrow> map_option (\<lambda>(k, st). (Suc k, st)) (first_match ml s r (Suc i) n)
      | st # _ \<Rightarrow> Some (0, st))"

definition re_exec :: "bool \<Rightarrow> regex \<Rightarrow> string \<Rightarrow> nat \<Rightarrow> (nat \<times> mstate) option" where
  "re_exec ml r s i = (if length s < i then None else first_match ml s r i (Suc (length s) - i))"

text \<open>A replacement text: literal parts and \<open>$n\<close>; a group that took no part gives nothing.\<close>

datatype tmpl = TLit string | TGrp nat

definition expand :: "tmpl list \<Rightarrow> caps \<Rightarrow> string" where
  "expand t cs =
     concat (map (\<lambda>x. case x of TLit l \<Rightarrow> l
                   | TGrp n \<Rightarrow> (case cs n of None \<Rightarrow> [] | Some v \<Rightarrow> v)) t)"

text \<open>
  \<open>str.replace(/r/g, t)\<close>: each match is replaced and the search goes on at its end; behind
  an empty match it goes on one character further, and that character is kept.
\<close>

function re_replace_from :: "bool \<Rightarrow> regex \<Rightarrow> tmpl list \<Rightarrow> string \<Rightarrow> nat \<Rightarrow> string" where
  "re_replace_from ml r t s i =
     (case re_exec ml r s i of
        None \<Rightarrow> drop i s
      | Some (k, e, cs) \<Rightarrow>
          take k (drop i s) @ expand t cs @
          (if e \<le> i + k then take 1 (drop (i + k) s) @ re_replace_from ml r t s (Suc (i + k))
           else re_replace_from ml r t s e))"
  by pat_completeness auto
termination
  by (relation "measure (\<lambda>(ml, r, t, s, i). Suc (length s) - i)")
    (auto simp: re_exec_def split: if_splits)

declare ms.simps [simp del]
declare re_replace_from.simps [simp del]

definition re_replace :: "bool \<Rightarrow> regex \<Rightarrow> tmpl list \<Rightarrow> string \<Rightarrow> string" where
  "re_replace ml r t s = re_replace_from ml r t s 0"

text \<open>\<open>r*\<close>, \<open>r+\<close>, \<open>r*?\<close>, and a sequence and a choice of several patterns.\<close>

definition star :: "regex \<Rightarrow> regex" where "star r = Rep True 0 None r"
definition plus1 :: "regex \<Rightarrow> regex" where "plus1 r = Rep True 1 None r"
definition lazy_star :: "regex \<Rightarrow> regex" where "lazy_star r = Rep False 0 None r"

fun cats :: "regex list \<Rightarrow> regex" where
  "cats [] = Rep True 0 (Some 0) Dot"
| "cats [r] = r"
| "cats (r # rs) = Cat r (cats rs)"

fun alts :: "regex list \<Rightarrow> regex" where
  "alts [] = NCls []"
| "alts [r] = r"
| "alts (r # rs) = Alt r (alts rs)"

section \<open>The Header Text Sanitizer (utils/parseHeader.ts)\<close>

text \<open>
  Every function of the file starts with \<open>String(str)\<close>, which leaves a string as it is:
  the functions are modelled on strings, and a caller that holds another value converts it
  (\<open>js_String\<close> below).
\<close>

definition unescapeHtml :: "string \<Rightarrow> string" where
  "unescapeHtml html =
     replaceAll ''&gt;'' ''>''
       (replaceAll ''&lt;'' ''<''
         (replaceAll ''&#x3A;'' '':''
           (replaceAll ''&#39;'' [SQ]
             (replaceAll ''&quot;'' [DQ] html))))"

text \<open>\<open>/(\[(.[^\]]+)\]\((.[^)]+)\))/g\<close>\<close>

definition re_link :: regex where
  "re_link =
     Grp 1 (cats [Lit CHR ''['', Grp 2 (Cat Dot (plus1 (NCls [CHR '']'']))), Lit CHR '']'',
                  Lit CHR ''('', Grp 3 (Cat Dot (plus1 (NCls [CHR '')'']))), Lit CHR '')''])"

text \<open>\<open>/(`|\*{1,3}|_)(.*?[^\\])\1/g\<close>\<close>

definition re_emph :: regex where
  "re_emph =
     cats [Grp 1 (alts [Lit BTK, Rep True 1 (Some 3) (Lit CHR ''*''), Lit CHR ''_'']),
           Grp 2 (Cat (lazy_star Dot) (NCls [BSL])),
           Bref 1]"

text \<open>\<open>/(\\)(\*|_|`|\!|<|\$)/g\<close>\<close>

definition re_unescape :: regex where
  "re_unescape =
     Cat (Grp 1 (Lit BSL))
         (Grp 2 (alts [Lit CHR ''*'', Lit CHR ''_'', Lit BTK, Lit CHR ''!'', Lit CHR ''<'',
                       Lit CHR ''$'']))"

definition removeMarkdownTokens :: "string \<Rightarrow> string" where
  "removeMarkdownTokens str =
     re_replace False re_unescape [TGrp 2]
       (re_replace False re_emph [TGrp 2]
         (re_replace False re_link [TGrp 2] str))"

text \<open>\<open>/(^|[^><`\\])<.*>([^><`]|$)/g\<close>\<close>

definition re_html :: regex where
  "re_html =
     cats [Grp 1 (Alt Bol (NCls [CHR ''>'', CHR ''<'', BTK, BSL])),
           Lit CHR ''<'', star Dot, Lit CHR ''>'',
           Grp 2 (Alt (NCls [CHR ''>'', CHR ''<'', BTK]) Eol)]"

definition removeNonCodeWrappedHTML :: "string \<Rightarrow> string" where
  "removeNonCodeWrappedHTML str = re_replace False re_html [TGrp 1, TGrp 2] str"

text \<open>\<open>compose(...processors)\<close>: the processors are applied from the first to the last.\<close>

fun compose :: "('a \<Rightarrow> 'a) list \<Rightarrow> 'a \<Rightarrow> 'a" where
  "compose [] = (\<lambda>input. input)"
| "compose [p] = p"
| "compose (p # ps) = foldl (\<lambda>prev next. (\<lambda>str. next (prev str))) p ps"

definition parseHeader :: "string \<Rightarrow> string" where
  "parseHeader = compose [unescapeHtml, removeMarkdownTokens, trim]"

definition deeplyParseHeader :: "string \<Rightarrow> string" where
  "deeplyParseHeader = compose [removeNonCodeWrappedHTML, parseHeader]"

section \<open>JavaScript values\<close>

text \<open>
  The values that frontmatter and renderer data hold. \<open>JNum\<close> holds the whole numbers;
  fractions, NaN and the infinities are not modelled. An object is the list of its own
  properties in the order in which they were created, every key once.
\<close>

datatype jsval =
    JUndefined
  | JNull
  | JBool bool
  | JNum int
  | JStr string
  | JArr "jsval list"
  | JObj "(string \<times> jsval) list"

type_synonym jsobj = "(string \<times> jsval) list"

text \<open>ToBoolean\<close>

fun truthy :: "jsval \<Rightarrow> bool" where
  "truthy JUndefined = False"
| "truthy JNull = False"
| "truthy (JBool b) = b"
| "truthy (JNum n) = (n \<noteq> 0)"
| "truthy (JStr s) = (s \<noteq> [])"
| "truthy (JArr xs) = True"
| "truthy (JObj ps) = True"

text \<open>\<open>obj.key\<close> on an object: \<open>undefined\<close> when the object has no such property.\<close>

definition obj_get :: "jsobj \<Rightarrow> string \<Rightarrow> jsval" where
  "obj_get ob k = (case map_of ob k of None \<Rightarrow> JUndefined | Some v \<Rightarrow> v)"

text \<open>Defining a property: an existing key keeps its place and takes the new value.\<close>

fun obj_set :: "string \<Rightarrow> jsval \<Rightarrow> jsobj \<Rightarrow> jsobj" where
  "obj_set k v [] = [(k, v)]"
| "obj_set k v (p # ps) = (if fst p = k then (k, v) # ps else p # obj_set k v ps)"

text \<open>An object literal \<open>{ k: v, ...obj, k2: v2 }\<close>: its parts are evaluated from left to right.\<close>

datatype part = Prop string jsval | Spread jsobj

fun add_prop :: "jsobj \<Rightarrow> part \<Rightarrow> jsobj" where
  "add_prop ob (Prop k v) = obj_set k v ob"
| "add_prop ob (Spread src) = foldl (\<lambda>acc p. obj_set (fst p) (snd p) acc) ob src"

definition obj_literal :: "part list \<Rightarrow> jsobj" where
  "obj_literal ps = foldl add_prop [] ps"

fun digits :: "nat \<Rightarrow> string" where
  "digits n = (if n < 10 then [''0123456789'' ! n]
               else digits (n div 10) @ [''0123456789'' ! (n mod 10)])"

declare digits.simps [simp del]

fun join :: "string \<Rightarrow> string list \<Rightarrow> string" where
  "join sep [] = []"
| "join sep [x] = x"
| "join sep (x # xs) = x @ sep @ join sep xs"

text \<open>\<open>String(v)\<close> (a whole number below \<open>10^21\<close> prints in plain decimal).\<close>

fun js_String :: "jsval \<Rightarrow> string" where
  "js_String JUndefined = ''undefined''"
| "js_String JNull = ''null''"
| "js_String (JBool b) = (if b then ''true'' else ''false'')"
| "js_String (JNum n) = (if n < 0 then CHR ''-'' # digits (nat (- n)) else digits (nat n))"
| "js_String (JStr s) = s"
| "js_String (JArr xs) =
     join '','' (map (\<lambda>x. if x = JUndefined \<or> x = JNull then [] else js_String x) xs)"
| "js_String (JObj ps) = ''[object Object]''"

section \<open>The Compile Cache\<close>

text \<open>
  Modelled from the spec: the class \<open>LRUCache\<close> of the package \<open>lru-cache\<close>, which is not
  part of the sources. The spec (4.1): \<open>get(source) -> optional CompileResult\<close>,
  \<open>set(source, result)\<close>, "Capacity-bounded LRU; insert evicts the least-recently-used
  entry once over capacity". The cache is the list of its entries, the most recently used
  first; a hit and an insert move the entry to the front.
\<close>

type_synonym 'v lru = "(string \<times> 'v) list"

definition lru_get :: "string \<Rightarrow> 'v lru \<Rightarrow> 'v option \<times> 'v lru" where
  "lru_get k c =
     (case map_of c k of
        None \<Rightarrow> (None, c)
      | Some v \<Rightarrow> (Some v, (k, v) # filter (\<lambda>e. fst e \<noteq> k) c))"

definition lru_set :: "nat \<Rightarrow> string \<Rightarrow> 'v \<Rightarrow> 'v lru \<Rightarrow> 'v lru" where
  "lru_set mx k v c = take mx ((k, v) # filter (\<lambda>e. fst e \<noteq> k) c)"

text \<open>\<open>new LRUCache({ max: 1024 })\<close> (markdownToVue.ts, line 27)\<close>

definition cache_max :: nat where
  "cache_max = 1024"

section \<open>Data and collaborators (markdownToVue.ts)\<close>

datatype error = FrontmatterError | RenderError | MissingFileError | TranspileError | TypeError

text \<open>What \<open>md.render\<close> returns: \<open>html\<close>, and of \<open>data\<close> the two fields that are read.\<close>

record renderOut =
  out_html :: string
  out_headers :: "jsobj list option"
  out_vueCode :: "string option"

record pageData =
  title :: string
  description :: jsval
  frontmatter :: jsobj
  headers :: "jsobj list option"
  relativePath :: string
  content :: string
  html :: string
  lastUpdated :: int

text \<open>MarkdownCompileResult\<close>

record compileResult =
  vueSrc :: string
  pageData :: pageData

text \<open>
  The collaborators, which are not part of the sources, are parameters of the model:
  \<^item> \<open>relative rootDir file\<close> is \<open>slash(path.relative(root, file))\<close>;
  \<^item> \<open>matter\<close> is gray-matter: the body and the frontmatter of a source, or an exception;
  \<^item> \<open>render\<close> is \<open>md.render\<close> of the renderer that \<open>createMarkdownRenderer(options)\<close> made;
  \<^item> \<open>escapeHtml\<close> is the package escape-html, \<open>stringify\<close> is \<open>JSON.stringify\<close>, and
    \<open>base64 s\<close> is \<open>Buffer.from(s).toString('base64')\<close>;
  \<^item> \<open>statSync file\<close> is \<open>fs.statSync(file).mtimeMs\<close>, or an exception;
  \<^item> \<open>fetchCode\<close> is \<open>utils/fetchCode\<close>, which gives a string for every part;
  \<^item> \<open>transformSync\<close> is the \<open>code\<close> that Babel's \<open>transformSync\<close> returns with the options of
    tsToJs, and \<open>lintText\<close> is \<open>report[0].output\<close> of ESLint's \<open>lintText\<close> (\<open>None\<close>: undefined).
\<close>

record env =
  relative :: "string \<Rightarrow> string \<Rightarrow> string"
  matter :: "string \<Rightarrow> error + string \<times> jsobj"
  render :: "string \<Rightarrow> error + renderOut"
  escapeHtml :: "string \<Rightarrow> string"
  statSync :: "string \<Rightarrow> error + rat"
  stringify :: "jsval \<Rightarrow> string"
  fetchCode :: "string \<Rightarrow> string \<Rightarrow> string"
  transformSync :: "string \<Rightarrow> error + string"
  lintText :: "string \<Rightarrow> error + string option"
  base64 :: "string \<Rightarrow> string"

text \<open>The calls of the collaborators that can fail, in the order in which they were made.\<close>

datatype call =
    CallMatter string
  | CallRender string
  | CallStat string
  | CallTransform string
  | CallLint string

text \<open>The state of the module: the cache (line 27) and the calls made so far.\<close>

record state =
  cache :: "compileResult lru"
  calls :: "call list"

text \<open>
  A computation changes the state and returns a value or throws: \<open>Inl\<close> is the exception.
  The functions of the file that are \<open>async\<close> are modelled as run to their end, one
  at a time.
\<close>

type_synonym 'a io = "state \<Rightarrow> (error + 'a) \<times> state"

definition returnM :: "'a \<Rightarrow> 'a io" where
  "returnM x = (\<lambda>st. (Inr x, st))"

definition bindM :: "'a io \<Rightarrow> ('a \<Rightarrow> 'b io) \<Rightarrow> 'b io" where
  "bindM m f = (\<lambda>st. case m st of (Inl e, st') \<Rightarrow> (Inl e, st') | (Inr x, st') \<Rightarrow> f x st')"

text \<open>A step without a collaborator that may throw.\<close>

definition liftE :: "error + 'a \<Rightarrow> 'a io" where
  "liftE r = (\<lambda>st. (r, st))"

text \<open>A call of a collaborator: the call is recorded, whether it throws or not.\<close>

definition callE :: "call \<Rightarrow> error + 'a \<Rightarrow> 'a io" where
  "callE c r = (\<lambda>st. (r, st\<lparr>calls := calls st @ [c]\<rparr>))"

definition cache_get :: "string \<Rightarrow> compileResult option io" where
  "cache_get src = (\<lambda>st. (Inr (fst (lru_get src (cache st))),
                          st\<lparr>cache := snd (lru_get src (cache st))\<rparr>))"

definition cache_set :: "string \<Rightarrow> compileResult \<Rightarrow> unit io" where
  "cache_set src result = (\<lambda>st. (Inr (), st\<lparr>cache := lru_set cache_max src result (cache st)\<rparr>))"

section \<open>The Source-to-Vanilla Transpiler (utils/tsToJs.ts)\<close>

text \<open>The result is \<open>None\<close> when ESLint's report has no \<open>output\<close>.\<close>

definition tsToJs :: "env \<Rightarrow> string \<Rightarrow> string option io" where
  "tsToJs E src =
     (if src = [] then returnM (Some [])
      else bindM (callE (CallTransform src) (transformSync E src)) (\<lambda>code.
           bindM (callE (CallLint code) (lintText E code)) (\<lambda>output.
           returnM (case output of
                      None \<Rightarrow> None
                    | Some out \<Rightarrow> if out \<noteq> [] then Some (trim out) else Some out))))"

section \<open>Page metadata (markdownToVue.ts, lines 149-180)\<close>

text \<open>\<open>/^\s*#+\s+(.*)/m\<close>\<close>

definition re_heading :: regex where
  "re_heading = cats [Bol, star Space, plus1 (Lit CHR ''#''), plus1 Space, Grp 1 (star Dot)]"

text \<open>\<open>content.match(/^\s*#+\s+(.*)/m)\<close>: the captures of the first match.\<close>

definition headingMatch :: "string \<Rightarrow> caps option" where
  "headingMatch body = map_option (\<lambda>m. snd (snd m)) (re_exec True re_heading body 0)"

definition inferTitle :: "jsobj \<Rightarrow> string \<Rightarrow> string" where
  "inferTitle fm body =
     (if truthy (obj_get fm ''home'') then ''Home''
      else if truthy (obj_get fm ''title'') then deeplyParseHeader (js_String (obj_get fm ''title''))
      else case headingMatch body of
             Some cs \<Rightarrow> deeplyParseHeader (case cs 1 of None \<Rightarrow> ''undefined'' | Some t \<Rightarrow> trim t)
           | None \<Rightarrow> [])"

text \<open>\<open>v.key\<close> for a key that strings, arrays, numbers and booleans do not have
  (\<open>name\<close>, \<open>content\<close>): it throws on \<open>undefined\<close> and \<open>null\<close>.\<close>

fun get_field :: "jsval \<Rightarrow> string \<Rightarrow> error + jsval" where
  "get_field JUndefined k = Inl TypeError"
| "get_field JNull k = Inl TypeError"
| "get_field (JObj ps) k = Inr (obj_get ps k)"
| "get_field v k = Inr JUndefined"

text \<open>\<open>v.length\<close> of a truthy value\<close>

fun js_length :: "jsval \<Rightarrow> jsval" where
  "js_length (JArr xs) = JNum (int (length xs))"
| "js_length (JStr s) = JNum (int (length s))"
| "js_length (JObj ps) = obj_get ps ''length''"
| "js_length v = JUndefined"

text \<open>\<open>v[i]\<close> of an array or a string\<close>

fun js_index :: "jsval \<Rightarrow> nat \<Rightarrow> jsval" where
  "js_index (JArr xs) i = (if i < length xs then xs ! i else JUndefined)"
| "js_index (JStr s) i = (if i < length s then JStr [s ! i] else JUndefined)"
| "js_index v i = JUndefined"

text \<open>The parameter \<open>[tag, attrs = {}]\<close> of the callback: it throws on a value that cannot be
  iterated.\<close>

fun head_entry :: "jsval \<Rightarrow> error + jsval \<times> jsval" where
  "head_entry (JArr xs) =
     Inr (js_index (JArr xs) 0,
          if js_index (JArr xs) 1 = JUndefined then JObj [] else js_index (JArr xs) 1)"
| "head_entry (JStr s) =
     Inr (js_index (JStr s) 0,
          if js_index (JStr s) 1 = JUndefined then JObj [] else js_index (JStr s) 1)"
| "head_entry v = Inl TypeError"

text \<open>\<open>tag === 'meta' && attrs.name === name && attrs.content\<close>, as the test of \<open>find\<close>\<close>

definition is_meta :: "jsval \<Rightarrow> jsval \<Rightarrow> string \<Rightarrow> error + bool" where
  "is_meta tag attrs name =
     (if tag \<noteq> JStr ''meta'' then Inr False
      else case get_field attrs ''name'' of
             Inl e \<Rightarrow> Inl e
           | Inr n \<Rightarrow>
               if n \<noteq> JStr name then Inr False
               else map_sum id truthy (get_field attrs ''content''))"

text \<open>\<open>head.find(([tag, attrs = {}]) => ...)\<close>\<close>

fun find_meta :: "jsval list \<Rightarrow> string \<Rightarrow> error + jsval" where
  "find_meta [] name = Inr JUndefined"
| "find_meta (e # es) name =
     (case head_entry e of
        Inl err \<Rightarrow> Inl err
      | Inr (tag, attrs) \<Rightarrow>
          (case is_meta tag attrs name of
             Inl err \<Rightarrow> Inl err
           | Inr True \<Rightarrow> Inr e
           | Inr False \<Rightarrow> find_meta es name))"

text \<open>A truthy \<open>head\<close> with a truthy \<open>length\<close> that is no array has no method \<open>find\<close>: the
  call throws.\<close>

definition getHeadMetaContent :: "jsval \<Rightarrow> string \<Rightarrow> error + jsval" where
  "getHeadMetaContent head name =
     (if \<not> truthy head \<or> \<not> truthy (js_length head) then Inr JUndefined
      else case head of
             JArr es \<Rightarrow>
               (case find_meta es name of
                  Inl e \<Rightarrow> Inl e
                | Inr meta \<Rightarrow>
                    if truthy meta then get_field (js_index meta 1) ''content'' else Inr meta)
           | _ \<Rightarrow> Inl TypeError)"

definition inferDescription :: "jsobj \<Rightarrow> error + jsval" where
  "inferDescription fm =
     (if \<not> truthy (obj_get fm ''head'') then Inr (JStr [])
      else case getHeadMetaContent (obj_get fm ''head'') ''description'' of
             Inl e \<Rightarrow> Inl e
           | Inr v \<Rightarrow> Inr (if truthy v then v else JStr []))"

section \<open>The Demo Code Generator (markdownToVue.ts, lines 86-147)\<close>

text \<open>\<open>headers.find(h => h.title === t)?.content\<close>\<close>

definition headerContent :: "jsobj list \<Rightarrow> string \<Rightarrow> jsval" where
  "headerContent hs t =
     (case List.find (\<lambda>h. obj_get h ''title'' = JStr t) hs of
        None \<Rightarrow> JUndefined
      | Some h \<Rightarrow> obj_get h ''content'')"

text \<open>The fenced block that is given to the renderer (lines 94-96 and 116-118).\<close>

definition fence :: "string \<Rightarrow> string" where
  "fence code = [BTK, BTK, BTK] @ ''vue'' @ [NL] @ code @ [NL] @ [BTK, BTK, BTK]"

text \<open>Lines 105-110: the script of the vanilla variant, from what tsToJs returned.\<close>

definition wrapScript :: "string option \<Rightarrow> string" where
  "wrapScript out =
     (case map_option trim out of
        Some js \<Rightarrow> if js \<noteq> [] then ''<script>'' @ [NL] @ js @ [NL] @ ''</script>'' else []
      | None \<Rightarrow> [])"

text \<open>Lines 111-115: \<open>jsSourceCode\<close>, the vanilla variant.\<close>

definition assembleVanilla :: "string \<Rightarrow> string \<Rightarrow> string \<Rightarrow> string" where
  "assembleVanilla template jsCode style =
     trim ([NL] @ template @ [NL] @ jsCode @ [NL] @ style @ [NL] @ ''  '')"

text \<open>Lines 101-115 as one computation: the vanilla variant of a demo source.\<close>

definition vanillaSource :: "env \<Rightarrow> string \<Rightarrow> string io" where
  "vanillaSource E vueCode =
     bindM (tsToJs E (fetchCode E vueCode ''scriptContent'')) (\<lambda>out.
     returnM (assembleVanilla (fetchCode E vueCode ''template'') (wrapScript out)
                (fetchCode E vueCode ''style'')))"

definition preMarker :: string where
  "preMarker = ''<pre class='' @ [DQ] @ ''language-vue'' @ [DQ] @ '' v-pre>''"

text \<open>Lines 124-132: the object that is given to \<open>JSON.stringify\<close>.\<close>

definition jsfiddlePayload :: "env \<Rightarrow> jsval \<Rightarrow> jsval \<Rightarrow> pageData \<Rightarrow> string \<Rightarrow> string \<Rightarrow> jsobj" where
  "jsfiddlePayload E us cn pd vueCode jsSourceCode =
     obj_literal
       [Prop ''us'' us,
        Prop ''cn'' cn,
        Prop ''docHtml'' (JStr (splitHead preMarker (html pd))),
        Spread (frontmatter pd),
        Prop ''relativePath'' (JStr (relativePath pd)),
        Prop ''sourceCode'' (JStr (base64 E vueCode)),
        Prop ''jsSourceCode'' (JStr (base64 E jsSourceCode))]"

text \<open>Lines 135-145\<close>

definition demoMarkup :: "string \<Rightarrow> string \<Rightarrow> string \<Rightarrow> string \<Rightarrow> string \<Rightarrow> string \<Rightarrow> string" where
  "demoMarkup jsfiddle template html0 jsVersion script style =
     [NL] @ ''    <template>'' @ [NL] @
     ''      <demo-box :jsfiddle='' @ [DQ] @ jsfiddle @ [DQ] @ ''>'' @ [NL] @
     ''        '' @ replaceFirst ''<template>'' ''<template v-slot:default>'' template @ [NL] @
     ''        <template #htmlCode>'' @ html0 @ ''</template>'' @ [NL] @
     ''        <template #jsVersionHtml>'' @ jsVersion @ ''</template>'' @ [NL] @
     ''      </demo-box>'' @ [NL] @
     ''    </template>'' @ [NL] @
     ''    '' @ script @ [NL] @
     ''    '' @ style @ [NL] @
     ''    ''"

text \<open>
  \<open>genComponentCode(md, data, pageData)\<close>, with \<open>data\<close> given as its two fields \<open>vueCode\<close>
  and \<open>headers\<close>: the one call of the function is made when \<open>data.vueCode\<close> is a
  non-empty string.
\<close>

definition genComponentCode :: "env \<Rightarrow> string \<Rightarrow> jsobj list option \<Rightarrow> pageData \<Rightarrow> string io" where
  "genComponentCode E vueCode hs0 pd =
     (let hs = (case hs0 of None \<Rightarrow> [] | Some l \<Rightarrow> l);
          cn = headerContent hs ''zh-CN'';
          us = headerContent hs ''en-US''
      in bindM (callE (CallRender (fence (trim vueCode))) (render E (fence (trim vueCode)))) (\<lambda>r1.
         bindM (vanillaSource E vueCode) (\<lambda>jsSourceCode.
         bindM (callE (CallRender (fence jsSourceCode)) (render E (fence jsSourceCode))) (\<lambda>r2.
         returnM (demoMarkup
           (escapeHtml E (stringify E (JObj (jsfiddlePayload E us cn pd vueCode jsSourceCode))))
           (fetchCode E vueCode ''template'')
           (escapeEnv (out_html r1))
           (escapeEnv (out_html r2))
           (fetchCode E vueCode ''script'')
           (fetchCode E vueCode ''style''))))))"

section \<open>The compile pipeline (markdownToVue.ts, lines 29-84)\<close>

text \<open>\<open>Math.round\<close>\<close>

definition Math_round :: "rat \<Rightarrow> int" where
  "Math_round x = \<lfloor>x + 1 / 2\<rfloor>"

text \<open>The page data as the value that \<open>JSON.stringify\<close> is given.\<close>

definition pageDataVal :: "pageData \<Rightarrow> jsval" where
  "pageDataVal pd =
     JObj [(''title'', JStr (title pd)),
           (''description'', description pd),
           (''frontmatter'', JObj (frontmatter pd)),
           (''headers'', case headers pd of None \<Rightarrow> JUndefined | Some hs \<Rightarrow> JArr (map JObj hs)),
           (''relativePath'', JStr (relativePath pd)),
           (''content'', JStr (content pd)),
           (''html'', JStr (html pd)),
           (''lastUpdated'', JNum (lastUpdated pd))]"

text \<open>Lines 67-74: the component of a page without a demo.\<close>

definition plainMarkup :: "env \<Rightarrow> string \<Rightarrow> pageData \<Rightarrow> string" where
  "plainMarkup E body pd =
     [NL] @ ''<template><article class='' @ [DQ] @ ''markdown'' @ [DQ] @ ''>'' @ html pd @
     ''</article></template>'' @ [NL] @ [NL] @
     ''<script>'' @ [NL] @
     ''export default { pageData: '' @ stringify E (pageDataVal pd) @ '' }'' @ [NL] @
     ''</script>'' @ [NL] @
     fetchCode E body ''style'' @ [NL]"

text \<open>
  The function that \<open>createMarkdownToVueRenderFn(root, options)\<close> returns, applied to \<open>src\<close>
  and \<open>file\<close> (\<open>rootDir\<close> is the \<open>root\<close> of the source). \<open>debug\<close> and \<open>Date.now\<close> only write a log line and are left out.
\<close>

definition compile :: "env \<Rightarrow> string \<Rightarrow> string \<Rightarrow> string \<Rightarrow> compileResult io" where
  "compile E rootDir src file =
     bindM (cache_get src) (\<lambda>cached.
     case cached of
       Some result \<Rightarrow> returnM result
     | None \<Rightarrow>
         bindM (callE (CallMatter src) (matter E src)) (\<lambda>(body, fm).
         bindM (callE (CallRender body) (render E body)) (\<lambda>out.
         bindM (liftE (inferDescription fm)) (\<lambda>desc.
         bindM (callE (CallStat file) (statSync E file)) (\<lambda>mtimeMs.
         let pd = \<lparr>title = inferTitle fm body,
                   description = desc,
                   frontmatter = fm,
                   headers = out_headers out,
                   relativePath = relative E rootDir file,
                   content = escapeHtml E body,
                   html = escapeEnv (out_html out),
                   lastUpdated = Math_round mtimeMs\<rparr>
         in bindM (case out_vueCode out of
                     None \<Rightarrow> returnM (plainMarkup E body pd)
                   | Some vueCode \<Rightarrow>
                       if vueCode \<noteq> [] then genComponentCode E vueCode (out_headers out) pd
                       else returnM (plainMarkup E body pd)) (\<lambda>newContent.
            let result = \<lparr>vueSrc = trim newContent, pageData = pd\<rparr>
            in bindM (cache_set src result) (\<lambda>u. returnM result)))))))"

text \<open>The state of a process that has compiled nothing yet.\<close>

definition init :: state where
  "init = \<lparr>cache = [], calls = []\<rparr>"

text \<open>The states that calls of \<open>compile\<close> lead to, with the collaborators \<open>E\<close>.\<close>

inductive reachable :: "env \<Rightarrow> state \<Rightarrow> bool" for E :: env where
  start: "reachable E init"
| compiled: "reachable E st \<Longrightarrow> reachable E (snd (compile E rootDir src file st))"

section \<open>Definitions for the proofs\<close>

text \<open>
  Lines 44-80 set apart: what \<open>compile\<close> does on a cache miss, before it stores the
  result (\<open>compile_pipeline\<close> below).
\<close>

definition pipeline :: "env \<Rightarrow> string \<Rightarrow> string \<Rightarrow> string \<Rightarrow> compileResult io" where
  "pipeline E rootDir src file =
     bindM (callE (CallMatter src) (matter E src)) (\<lambda>(body, fm).
     bindM (callE (CallRender body) (render E body)) (\<lambda>out.
     bindM (liftE (inferDescription fm)) (\<lambda>desc.
     bindM (callE (CallStat file) (statSync E file)) (\<lambda>mtimeMs.
     let pd = \<lparr>title = inferTitle fm body,
               description = desc,
               frontmatter = fm,
               headers = out_headers out,
               relativePath = relative E rootDir file,
               content = escapeHtml E body,
               html = escapeEnv (out_html out),
               lastUpdated = Math_round mtimeMs\<rparr>
     in bindM (case out_vueCode out of
                 None \<Rightarrow> returnM (plainMarkup E body pd)
               | Some vueCode \<Rightarrow>
                   if vueCode \<noteq> [] then genComponentCode E vueCode (out_headers out) pd
                   else returnM (plainMarkup E body pd)) (\<lambda>newContent.
        returnM \<lparr>vueSrc = trim newContent, pageData = pd\<rparr>)))))"

text \<open>A computation that leaves the cache as it is.\<close>

definition keeps_cache :: "'a io \<Rightarrow> bool" where
  "keeps_cache m = (\<forall>st. cache (snd (m st)) = cache st)"

text \<open>Two computations whose outcome is the same, from whatever states they start.\<close>

definition same_result :: "'a io \<Rightarrow> 'a io \<Rightarrow> bool" where
  "same_result m m' = (\<forall>st st'. fst (m st) = fst (m' st'))"

text \<open>Every entry of the cache holds the escaped body of its key.\<close>

definition content_ok :: "env \<Rightarrow> compileResult lru \<Rightarrow> bool" where
  "content_ok E c =
     (\<forall>e \<in> set c. \<exists>body fm. matter E (fst e) = Inr (body, fm) \<and>
        content (pageData (snd e)) = escapeHtml E body)"

text \<open>The characters of \<open>s\<close> from the index \<open>p\<close> up to the index \<open>q\<close> all satisfy \<open>ok\<close>.\<close>

definition run :: "string \<Rightarrow> (char \<Rightarrow> bool) \<Rightarrow> nat \<Rightarrow> nat \<Rightarrow> bool" where
  "run s ok p q = (p \<le> q \<and> q \<le> length s \<and> (\<forall>i. p \<le> i \<and> i < q \<longrightarrow> ok (s ! i)))"

text \<open>The text of \<open>s\<close> from the index \<open>p\<close> up to the index \<open>q\<close>.\<close>

definition slice :: "string \<Rightarrow> nat \<Rightarrow> nat \<Rightarrow> string" where
  "slice s p q = take (q - p) (drop p s)"

section \<open>The title as claim C3 words it\<close>

text \<open>
  Claim C3 takes the title, where the frontmatter gives none, from "the first top-level
  heading line". This is that reading, for the comparison with \<open>inferTitle\<close>: the lines of
  the body are searched for the first heading of level one (white space, one \<open>#\<close>, white
  space, the text).
\<close>

fun splitLines :: "string \<Rightarrow> string list" where
  "splitLines [] = [[]]"
| "splitLines (c # cs) =
     (if c = NL then [] # splitLines cs
      else (case splitLines cs of [] \<Rightarrow> [[c]] | l # ls \<Rightarrow> (c # l) # ls))"

definition topLevelHeading :: "string \<Rightarrow> string option" where
  "topLevelHeading line =
     (case dropWhile isSpace line of
        c # d # rest \<Rightarrow>
          if c = CHR ''#'' \<and> isSpace d then Some (dropWhile isSpace (d # rest)) else None
      | _ \<Rightarrow> None)"

definition claimedTitle :: "jsobj \<Rightarrow> string \<Rightarrow> string" where
  "claimedTitle fm body =
     (if truthy (obj_get fm ''home'') then ''Home''
      else if truthy (obj_get fm ''title'') then deeplyParseHeader (js_String (obj_get fm ''title''))
      else case List.find (\<lambda>l. topLevelHeading l \<noteq> None) (splitLines body) of
             Some l \<Rightarrow> deeplyParseHeader (trim (the (topLevelHeading l)))
           | None \<Rightarrow> [])"

section \<open>Collaborators for the examples\<close>

text \<open>
  Deterministic stand-ins: a source without frontmatter, a renderer that wraps the text in a
  paragraph, a file system where every file was last changed at time 0.
\<close>

definition fakeEnv :: env where
  "fakeEnv =
     \<lparr>relative = (\<lambda>rootDir file.
         if prefix (rootDir @ ''/'') file then drop (Suc (length rootDir)) file else file),
      matter = (\<lambda>src. Inr (src, [])),
      render = (\<lambda>text. Inr \<lparr>out_html = ''<p>'' @ text @ ''</p>'', out_headers = Some [],
                             out_vueCode = None\<rparr>),
      escapeHtml = (\<lambda>s. replaceAll ''<'' ''&lt;'' s),
      statSync = (\<lambda>file. Inr 0),
      stringify = (\<lambda>v. ''{}''),
      fetchCode = (\<lambda>code part. []),
      transformSync = (\<lambda>code. Inr code),
      lintText = (\<lambda>code. Inr None),
      base64 = (\<lambda>s. s)\<rparr>"

text \<open>The same, with a file system that has no file.\<close>

definition noFileEnv :: env where
  "noFileEnv = fakeEnv\<lparr>statSync := (\<lambda>file. Inl MissingFileError)\<rparr>"

text \<open>The same as \<open>fakeEnv\<close>, with a renderer that finds a demo in every text that is no
  fenced block.\<close>

definition demoEnv :: env where
  "demoEnv =
     fakeEnv\<lparr>render := (\<lambda>text. Inr \<lparr>out_html = ''<p>'' @ text @ ''</p>'', out_headers = Some [],
         out_vueCode = (if prefix [BTK, BTK, BTK] text then None
                        else Some ''<template><b/></template>'')\<rparr>),
       fetchCode := (\<lambda>code part. if part = ''template'' then code else [])\<rparr>"

text \<open>
  The same as \<open>fakeEnv\<close>, for a demo whose script holds a type alias only: Babel returns
  an empty text for it, and the report of ESLint, which has nothing to fix, has no output.
\<close>

definition typeOnlyEnv :: env where
  "typeOnlyEnv =
     fakeEnv\<lparr>fetchCode := (\<lambda>code part.
         if part = ''template'' then ''<template><b/></template>''
         else if part = ''style'' then ''<style></style>''
         else if part = ''scriptContent'' then ''type A = number''
         else ''<script>type A = number</script>''),
       transformSync := (\<lambda>code. Inr [])\<rparr>"

text \<open>The state after \<open>n\<close> calls of \<open>compile\<close> on \<open>n\<close> sources: the texts of \<open>0\<close> to \<open>n - 1\<close>
  letters \<open>a\<close>.\<close>

fun fill :: "nat \<Rightarrow> state" where
  "fill 0 = init"
| "fill (Suc n) = snd (compile fakeEnv ''/docs'' (replicate n CHR ''a'') ''/docs/a.md'' (fill n))"

section \<open>Facts\<close>

subsection \<open>Literal replacement\<close>

lemma replaceAll_Nil: "replaceAll pat rep [] = []"
  by (simp add: replaceAll.simps)

lemma replaceAll_hit:
  "pat \<noteq> [] \<Longrightarrow> prefix pat s \<Longrightarrow>
   replaceAll pat rep s = rep @ replaceAll pat rep (drop (length pat) s)"
  by (subst replaceAll.simps) auto

lemma replaceAll_miss:
  "pat \<noteq> [] \<Longrightarrow> \<not> prefix pat (c # cs) \<Longrightarrow>
   replaceAll pat rep (c # cs) = c # replaceAll pat rep cs"
  by (subst replaceAll.simps) auto

text \<open>A text without the pattern is left as it is.\<close>

lemma replaceAll_absent:
  "\<not> sublist pat s \<Longrightarrow> replaceAll pat rep s = s"
proof (induction s)
  case Nil
  show ?case by (simp add: replaceAll_Nil)
next
  case (Cons c cs)
  have ne: "pat \<noteq> []" using Cons.prems by auto
  have np: "\<not> prefix pat (c # cs)" using Cons.prems prefix_imp_sublist by blast
  have "\<not> sublist pat cs" using Cons.prems by (meson sublist_Cons_right)
  then show ?case using Cons.IH ne np by (simp add: replaceAll_miss)
qed

text \<open>
  The replacement is \<open>a @ m # b\<close>, with a marker \<open>m\<close>. A prefix \<open>t\<close> of the output
  that holds no marker and does not end on a character of \<open>a\<close> is a prefix of the input.
\<close>

lemma prefix_replaceAll:
  assumes pat: "pat \<noteq> []" and m: "m \<notin> set t" and la: "t \<noteq> [] \<longrightarrow> last t \<notin> set a"
  shows "prefix t (replaceAll pat (a @ m # b) s) \<Longrightarrow> prefix t s"
  using m la
proof (induction s arbitrary: t)
  case Nil
  then show ?case by (simp add: replaceAll_Nil)
next
  case (Cons c cs)
  show ?case
  proof (cases "prefix pat (c # cs)")
    case True
    have eq: "replaceAll pat (a @ m # b) (c # cs) =
        (a @ m # b) @ replaceAll pat (a @ m # b) (drop (length pat) (c # cs))"
      using pat True by (rule replaceAll_hit)
    have "prefix t (a @ m # b @ replaceAll pat (a @ m # b) (drop (length pat) (c # cs)))"
      using Cons.prems(1) unfolding eq by simp
    then have "prefix t a \<or> (\<exists>us. t = a @ us \<and>
        prefix us (m # b @ replaceAll pat (a @ m # b) (drop (length pat) (c # cs))))"
      by (auto simp: prefix_append)
    then have "prefix t a" using Cons.prems(2) by (auto simp: prefix_Cons)
    then have "set t \<subseteq> set a" by (auto simp: prefix_def)
    then have "t = []" using Cons.prems(3) last_in_set by blast
    then show ?thesis by simp
  next
    case False
    have eq: "replaceAll pat (a @ m # b) (c # cs) = c # replaceAll pat (a @ m # b) cs"
      using pat False by (rule replaceAll_miss)
    show ?thesis
    proof (cases t)
      case Nil
      then show ?thesis by simp
    next
      case (Cons d ds)
      have "d = c" and p: "prefix ds (replaceAll pat (a @ m # b) cs)"
        using Cons.prems(1) unfolding eq Cons by simp_all
      have "m \<notin> set ds" using Cons.prems(2) Cons by simp
      moreover have "ds \<noteq> [] \<longrightarrow> last ds \<notin> set a" using Cons.prems(3) Cons by auto
      ultimately have "prefix ds cs" using Cons.IH p by blast
      then show ?thesis using Cons \<open>d = c\<close> by simp
    qed
  qed
qed

lemma sublist_sep:
  assumes "m \<notin> set q" "sublist q (xs @ m # ys)"
  shows "sublist q xs \<or> sublist q ys"
proof -
  from assms(2) consider "sublist q xs" | "sublist q (m # ys)"
    | q1 q2 where "q = q1 @ q2" "suffix q1 xs" "prefix q2 (m # ys)"
    by (auto simp: sublist_append)
  then show ?thesis
  proof cases
    case 1 then show ?thesis by simp
  next
    case 2
    then have "prefix q (m # ys) \<or> sublist q ys" by (simp add: sublist_Cons_right)
    then show ?thesis using assms(1) by (cases q) auto
  next
    case 3
    then show ?thesis using assms(1) by (cases q2) auto
  qed
qed

lemma sublist_last_in: "q \<noteq> [] \<Longrightarrow> sublist q xs \<Longrightarrow> last q \<in> set xs"
  by (auto simp: sublist_def)

lemma sublist_hd_in: "q \<noteq> [] \<Longrightarrow> sublist q xs \<Longrightarrow> hd q \<in> set xs"
  by (cases q) (auto simp: sublist_def)

lemma sublist_rep_tail:
  assumes "q \<noteq> []" "hd q \<notin> set b" "sublist q (b @ ys)"
  shows "sublist q ys"
proof -
  from assms(3) consider "sublist q b" | "sublist q ys"
    | q1 q2 where "q = q1 @ q2" "suffix q1 b" "prefix q2 ys"
    by (auto simp: sublist_append)
  then show ?thesis
  proof cases
    case 1 then show ?thesis using assms sublist_hd_in by blast
  next
    case 2 then show ?thesis .
  next
    case 3
    show ?thesis
    proof (cases q1)
      case Nil then show ?thesis using 3 by (simp add: prefix_imp_sublist)
    next
      case (Cons d ds)
      then have "hd q \<in> set b" using 3 by (auto simp: suffix_def)
      then show ?thesis using assms(2) by simp
    qed
  qed
qed

text \<open>An occurrence of \<open>q\<close> cannot touch a replacement text that is safe for \<open>q\<close>.\<close>

lemma sublist_past_replacement:
  assumes "q \<noteq> []" "m \<notin> set q" "last q \<notin> set a" "hd q \<notin> set b"
    and "sublist q (a @ m # b @ ys)"
  shows "sublist q ys"
proof -
  have "sublist q a \<or> sublist q (b @ ys)" using sublist_sep [OF assms(2) assms(5)] .
  then show ?thesis using assms sublist_last_in sublist_rep_tail by blast
qed

text \<open>Replacing \<open>pat\<close> brings in no occurrence of \<open>q\<close> that the input did not have.\<close>

lemma sublist_replaceAll:
  assumes pat: "pat \<noteq> []" and q: "q \<noteq> []" and m: "m \<notin> set q"
    and la: "last q \<notin> set a" and hb: "hd q \<notin> set b"
  shows "sublist q (replaceAll pat (a @ m # b) s) \<Longrightarrow> sublist q s"
proof (induction s rule: length_induct)
  case (1 s)
  note IH = 1(1) [rule_format]
  show ?case
  proof (cases s)
    case Nil
    then show ?thesis using 1(2) by (simp add: replaceAll_Nil)
  next
    case (Cons c cs)
    show ?thesis
    proof (cases "prefix pat s")
      case True
      have eq: "replaceAll pat (a @ m # b) s =
          (a @ m # b) @ replaceAll pat (a @ m # b) (drop (length pat) s)"
        using pat True by (rule replaceAll_hit)
      have "sublist q (a @ m # b @ replaceAll pat (a @ m # b) (drop (length pat) s))"
        using 1(2) unfolding eq by simp
      then have "sublist q (replaceAll pat (a @ m # b) (drop (length pat) s))"
        by (rule sublist_past_replacement [OF q m la hb])
      moreover have "length (drop (length pat) s) < length s" using pat Cons by simp
      ultimately have "sublist q (drop (length pat) s)" by (rule IH [rotated])
      then obtain us vs where "drop (length pat) s = us @ q @ vs"
        unfolding sublist_def by blast
      then have "s = (take (length pat) s @ us) @ q @ vs"
        by (metis append_take_drop_id append.assoc)
      then show ?thesis unfolding sublist_def by blast
    next
      case False
      have eq: "replaceAll pat (a @ m # b) s = c # replaceAll pat (a @ m # b) cs"
        using pat False unfolding Cons by (rule replaceAll_miss)
      have "prefix q (replaceAll pat (a @ m # b) s) \<or> sublist q (replaceAll pat (a @ m # b) cs)"
        using 1(2) unfolding eq by (simp add: sublist_Cons_right)
      then show ?thesis
      proof
        assume "prefix q (replaceAll pat (a @ m # b) s)"
        then have "prefix q s" using prefix_replaceAll [of pat m q a b s] pat m la by simp
        then show ?thesis by (rule prefix_imp_sublist)
      next
        assume "sublist q (replaceAll pat (a @ m # b) cs)"
        then have "sublist q cs" using IH [of cs] Cons by simp
        then show ?thesis using Cons by (simp add: sublist_Cons_right)
      qed
    qed
  qed
qed

text \<open>The output of a replacement that is safe for its own pattern holds the pattern nowhere.\<close>

lemma replaceAll_no_pat:
  assumes pat: "pat \<noteq> []" and m: "m \<notin> set pat"
    and la: "last pat \<notin> set a" and hb: "hd pat \<notin> set b"
  shows "\<not> sublist pat (replaceAll pat (a @ m # b) s)"
proof (induction s rule: length_induct)
  case (1 s)
  note IH = 1(1) [rule_format]
  show ?case
  proof (cases s)
    case Nil
    then show ?thesis using pat by (simp add: replaceAll_Nil)
  next
    case (Cons c cs)
    show ?thesis
    proof (cases "prefix pat s")
      case True
      have eq: "replaceAll pat (a @ m # b) s =
          (a @ m # b) @ replaceAll pat (a @ m # b) (drop (length pat) s)"
        using pat True by (rule replaceAll_hit)
      have "length (drop (length pat) s) < length s" using pat Cons by simp
      then have no: "\<not> sublist pat (replaceAll pat (a @ m # b) (drop (length pat) s))"
        by (rule IH)
      show ?thesis
      proof
        assume "sublist pat (replaceAll pat (a @ m # b) s)"
        then have "sublist pat (a @ m # b @ replaceAll pat (a @ m # b) (drop (length pat) s))"
          unfolding eq by simp
        then have "sublist pat (replaceAll pat (a @ m # b) (drop (length pat) s))"
          by (rule sublist_past_replacement [OF pat m la hb])
        then show False using no by simp
      qed
    next
      case False
      have eq: "replaceAll pat (a @ m # b) s = c # replaceAll pat (a @ m # b) cs"
        using pat False unfolding Cons by (rule replaceAll_miss)
      have "\<not> prefix pat (replaceAll pat (a @ m # b) s)"
        using prefix_replaceAll [of pat m pat a b s] pat m la False by blast
      moreover have "\<not> sublist pat (replaceAll pat (a @ m # b) cs)"
        using IH [of cs] Cons by simp
      ultimately show ?thesis unfolding eq by (simp add: sublist_Cons_right)
    qed
  qed
qed

subsection \<open>The Template Escaper\<close>

lemma no_import_meta:
  "\<not> sublist ''import.meta'' (replaceAll ''import.meta'' ''import.<wbr/>meta'' s)"
  using replaceAll_no_pat [of "''import.meta''" "CHR ''<''" "''import.''" "''wbr/>meta''" s]
  by simp

lemma no_process_env:
  "\<not> sublist ''process.env'' (replaceAll ''process.env'' ''process.<wbr/>env'' s)"
  using replaceAll_no_pat [of "''process.env''" "CHR ''<''" "''process.''" "''wbr/>env''" s]
  by simp

lemma keep_no_import_meta:
  "\<not> sublist ''import.meta'' s \<Longrightarrow>
   \<not> sublist ''import.meta'' (replaceAll ''process.env'' ''process.<wbr/>env'' s)"
  using sublist_replaceAll [of "''process.env''" "''import.meta''" "CHR ''<''"
      "''process.''" "''wbr/>env''" s]
  by auto

text \<open>
  Claim C5. The template escaper, which puts \<open><wbr/>\<close> into every \<open>import.meta\<close> and then
  into every \<open>process.env\<close>, is idempotent: escaping an escaped text changes nothing.
\<close>

theorem escapeEnv_idempotent: "escapeEnv (escapeEnv x) = escapeEnv x"
  unfolding escapeEnv_def
  by (simp add: replaceAll_absent no_import_meta no_process_env keep_no_import_meta)

subsection \<open>Computations\<close>

lemma bindM_assoc: "bindM (bindM m f) g = bindM m (\<lambda>x. bindM (f x) g)"
  by (auto simp: bindM_def fun_eq_iff split: prod.splits sum.splits)

lemma returnM_bindM: "bindM (returnM x) f = f x"
  by (simp add: bindM_def returnM_def)

lemma compile_pipeline:
  "compile E rootDir src file =
     bindM (cache_get src) (\<lambda>cached.
       case cached of
         Some result \<Rightarrow> returnM result
       | None \<Rightarrow> bindM (pipeline E rootDir src file) (\<lambda>result.
                  bindM (cache_set src result) (\<lambda>u. returnM result)))"
  unfolding compile_def pipeline_def
  by (simp add: bindM_assoc returnM_bindM Let_def split_def cong: option.case_cong)

lemma keeps_returnM: "keeps_cache (returnM x)"
  by (simp add: keeps_cache_def returnM_def)

lemma keeps_liftE: "keeps_cache (liftE r)"
  by (simp add: keeps_cache_def liftE_def)

lemma keeps_callE: "keeps_cache (callE c r)"
  by (simp add: keeps_cache_def callE_def)

lemma keeps_bindM:
  assumes "keeps_cache m" and "\<And>x. keeps_cache (f x)"
  shows "keeps_cache (bindM m f)"
  unfolding keeps_cache_def
proof
  fix st
  show "cache (snd (bindM m f st)) = cache st"
  proof (cases "m st")
    case (Pair r st')
    have c: "cache st' = cache st" using assms(1) Pair unfolding keeps_cache_def
      by (metis snd_conv)
    show ?thesis
    proof (cases r)
      case (Inl e)
      then show ?thesis using Pair c by (simp add: bindM_def)
    next
      case (Inr x)
      have "cache (snd (f x st')) = cache st'" using assms(2) unfolding keeps_cache_def by blast
      then show ?thesis using Pair Inr c by (simp add: bindM_def)
    qed
  qed
qed

lemma keeps_tsToJs: "keeps_cache (tsToJs E src)"
  unfolding tsToJs_def
  by (auto intro!: keeps_bindM keeps_returnM keeps_callE)

lemma keeps_vanillaSource: "keeps_cache (vanillaSource E vueCode)"
  unfolding vanillaSource_def
  by (intro keeps_bindM keeps_returnM keeps_tsToJs)

lemma keeps_genComponentCode: "keeps_cache (genComponentCode E vueCode hs pd)"
  unfolding genComponentCode_def Let_def
  by (intro keeps_bindM keeps_returnM keeps_callE keeps_vanillaSource)

lemma keeps_pipeline: "keeps_cache (pipeline E rootDir src file)"
  unfolding pipeline_def Let_def
  by (auto intro!: keeps_bindM keeps_returnM keeps_callE keeps_liftE keeps_genComponentCode
      split: option.splits)

lemma pipeline_cache: "pipeline E rootDir src file st = (r, st') \<Longrightarrow> cache st' = cache st"
  using keeps_pipeline unfolding keeps_cache_def
  by (metis snd_conv)

subsection \<open>Hit and miss\<close>

lemma compile_hit:
  assumes "map_of (cache st) src = Some r"
  shows "compile E rootDir src file st =
         (Inr r, st\<lparr>cache := (src, r) # filter (\<lambda>e. fst e \<noteq> src) (cache st)\<rparr>)"
  using assms
  by (simp add: compile_pipeline bindM_def cache_get_def lru_get_def returnM_def)

lemma compile_miss:
  assumes "map_of (cache st) src = None"
  shows "compile E rootDir src file st =
         (case pipeline E rootDir src file st of
            (Inl e, st') \<Rightarrow> (Inl e, st')
          | (Inr r, st') \<Rightarrow> (Inr r, st'\<lparr>cache := lru_set cache_max src r (cache st')\<rparr>))"
  using assms
  by (simp add: compile_pipeline bindM_def cache_get_def lru_get_def returnM_def cache_set_def
      split: prod.splits sum.splits)

lemma filter_take_filter: "filter P (take n (filter P xs)) = take n (filter P xs)"
  by (rule filter_True) (auto dest: in_set_takeD)

text \<open>A call that returns a result leaves it in the cache, as the first entry and the only
  one of its key.\<close>

lemma compile_ok_cached:
  assumes "compile E rootDir src file st = (Inr r, st1)"
  shows "\<exists>rest. cache st1 = (src, r) # rest \<and> filter (\<lambda>e. fst e \<noteq> src) rest = rest"
proof (cases "map_of (cache st) src")
  case (Some r0)
  have "r = r0" "st1 = st\<lparr>cache := (src, r0) # filter (\<lambda>e. fst e \<noteq> src) (cache st)\<rparr>"
    using assms compile_hit [OF Some, of E rootDir "file"] by auto
  then show ?thesis by simp
next
  case None
  obtain x st' where p: "pipeline E rootDir src file st = (x, st')"
    by (cases "pipeline E rootDir src file st")
  have "x = Inr r" and st1: "st1 = st'\<lparr>cache := lru_set cache_max src r (cache st')\<rparr>"
    using assms compile_miss [OF None, of E rootDir "file"] p by (auto split: sum.splits)
  have "cache st1 = (src, r) # take 1023 (filter (\<lambda>e. fst e \<noteq> src) (cache st'))"
    using st1 by (simp add: lru_set_def cache_max_def)
  then show ?thesis by (simp add: filter_take_filter)
qed

text \<open>
  Claim C1. When a call of compile on a source has returned a result, the next call on
  the same source is a cache hit that returns the same result and leaves the state as it
  is: no collaborator is called again (the list of calls is part of the state), and the
  entry stays the most recently used one.
\<close>

theorem compile_twice_cache_hit:
  assumes "compile E rootDir src file st = (Inr r, st1)"
  shows "map_of (cache st1) src = Some r \<and> compile E rootDir src file st1 = (Inr r, st1)"
proof -
  obtain rest where c: "cache st1 = (src, r) # rest"
    and f: "filter (\<lambda>e. fst e \<noteq> src) rest = rest"
    using compile_ok_cached [OF assms] by blast
  have hit: "map_of (cache st1) src = Some r" using c by simp
  have "(src, r) # filter (\<lambda>e. fst e \<noteq> src) (cache st1) = cache st1"
    using c f by simp
  then have "st1\<lparr>cache := (src, r) # filter (\<lambda>e. fst e \<noteq> src) (cache st1)\<rparr> = st1"
    by simp
  then show ?thesis using hit compile_hit [OF hit, of E rootDir "file"] by simp
qed

lemma fake_first:
  "\<exists>r s1. compile fakeEnv ''/docs'' ''# Hi'' ''/docs/a.md'' init = (Inr r, s1)"
  by (simp add: compile_def fakeEnv_def bindM_def cache_get_def lru_get_def init_def callE_def
      liftE_def returnM_def cache_set_def inferDescription_def obj_get_def Let_def)

text \<open>
  Claim C1, witness: with the stand-in collaborators the first call on \<open># Hi\<close> returns a
  result, and the second call returns it again from the cache, in an unchanged state.
\<close>

theorem compile_twice_cache_hit_witness:
  "\<exists>r s1. compile fakeEnv ''/docs'' ''# Hi'' ''/docs/a.md'' init = (Inr r, s1) \<and>
     map_of (cache s1) ''# Hi'' = Some r \<and>
     compile fakeEnv ''/docs'' ''# Hi'' ''/docs/a.md'' s1 = (Inr r, s1)"
proof -
  obtain r s1 where f: "compile fakeEnv ''/docs'' ''# Hi'' ''/docs/a.md'' init = (Inr r, s1)"
    using fake_first by blast
  show ?thesis using f compile_twice_cache_hit [OF f] by blast
qed

text \<open>
  Claim C6. A call of compile that throws, whichever step threw, leaves the cache as it
  was and without an entry for the source, so that the next call on the source runs the
  whole pipeline again.
\<close>

theorem failed_compile_stores_nothing:
  assumes "compile E rootDir src file st = (Inl e, st')"
  shows "cache st' = cache st \<and> map_of (cache st') src = None \<and>
         fst (compile E rootDir src file st') = fst (pipeline E rootDir src file st')"
proof (cases "map_of (cache st) src")
  case (Some r0)
  then show ?thesis using assms compile_hit [OF Some, of E rootDir "file"] by simp
next
  case None
  obtain x st2 where p: "pipeline E rootDir src file st = (x, st2)"
    by (cases "pipeline E rootDir src file st")
  have "st' = st2" using assms compile_miss [OF None, of E rootDir "file"] p
    by (auto split: sum.splits)
  then have c: "cache st' = cache st" using pipeline_cache [OF p] by simp
  then have n: "map_of (cache st') src = None" using None by simp
  have "fst (compile E rootDir src file st') = fst (pipeline E rootDir src file st')"
    unfolding compile_miss [OF n] by (auto split: prod.splits sum.splits)
  then show ?thesis using c n by simp
qed

lemma nofile_first:
  "\<exists>s1. compile noFileEnv ''/docs'' ''# Hi'' ''/docs/a.md'' init = (Inl MissingFileError, s1)"
  by (simp add: compile_def noFileEnv_def fakeEnv_def bindM_def cache_get_def lru_get_def
      init_def callE_def liftE_def returnM_def cache_set_def inferDescription_def obj_get_def
      Let_def)

text \<open>
  Claim C6, witness: where the file-stat collaborator throws, compile throws its
  exception and the cache stays empty.
\<close>

theorem failed_compile_stores_nothing_witness:
  "\<exists>s1. compile noFileEnv ''/docs'' ''# Hi'' ''/docs/a.md'' init = (Inl MissingFileError, s1) \<and>
     cache s1 = [] \<and> map_of (cache s1) ''# Hi'' = None"
proof -
  obtain s1 where
    f: "compile noFileEnv ''/docs'' ''# Hi'' ''/docs/a.md'' init = (Inl MissingFileError, s1)"
    using nofile_first by blast
  have "cache init = []" by (simp add: init_def)
  then show ?thesis using f failed_compile_stores_nothing [OF f] by auto
qed

subsection \<open>The escaped body\<close>

lemma pipeline_content:
  assumes "pipeline E rootDir src file st = (Inr r, st')"
  shows "\<exists>body fm. matter E src = Inr (body, fm) \<and> content (pageData r) = escapeHtml E body"
  using assms
  unfolding pipeline_def
  by (auto simp: bindM_def callE_def liftE_def returnM_def Let_def
      split: sum.splits prod.splits)

lemma content_ok_get:
  "content_ok E c \<Longrightarrow> content_ok E (snd (lru_get k c))"
  by (auto simp: content_ok_def lru_get_def split: option.splits dest!: map_of_SomeD)

lemma content_ok_hit:
  "content_ok E c \<Longrightarrow> map_of c k = Some r \<Longrightarrow>
   \<exists>body fm. matter E k = Inr (body, fm) \<and> content (pageData r) = escapeHtml E body"
  by (auto simp: content_ok_def dest!: map_of_SomeD)

lemma content_ok_set:
  assumes "content_ok E c"
    and "\<exists>body fm. matter E k = Inr (body, fm) \<and> content (pageData r) = escapeHtml E body"
  shows "content_ok E (lru_set n k r c)"
  using assms
  unfolding content_ok_def lru_set_def
  by (fastforce dest!: in_set_takeD)

lemma compile_content_ok:
  assumes "content_ok E (cache st)"
  shows "content_ok E (cache (snd (compile E rootDir src file st)))"
proof (cases "map_of (cache st) src")
  case (Some r0)
  have "content_ok E ((src, r0) # filter (\<lambda>e. fst e \<noteq> src) (cache st))"
    using content_ok_get [OF assms, of src] Some by (simp add: lru_get_def)
  then show ?thesis using compile_hit [OF Some, of E rootDir "file"] by simp
next
  case None
  obtain x st2 where p: "pipeline E rootDir src file st = (x, st2)"
    by (cases "pipeline E rootDir src file st")
  have c: "cache st2 = cache st" using pipeline_cache [OF p] .
  show ?thesis
  proof (cases x)
    case (Inl e)
    then show ?thesis using compile_miss [OF None, of E rootDir "file"] p c assms by simp
  next
    case (Inr r)
    have "content_ok E (lru_set cache_max src r (cache st))"
      using content_ok_set [OF assms] pipeline_content p Inr by blast
    then show ?thesis using compile_miss [OF None, of E rootDir "file"] p c Inr by simp
  qed
qed

lemma reachable_content_ok: "reachable E st \<Longrightarrow> content_ok E (cache st)"
proof (induction rule: reachable.induct)
  case start
  show ?case by (simp add: content_ok_def init_def)
next
  case (compiled st rd s f)
  show ?case using compiled.IH by (rule compile_content_ok)
qed

text \<open>
  Claim C8. In every state that calls of compile lead to, a call that returns a result
  returns page data whose \<open>content\<close> is the HTML-escaped body that the frontmatter
  extractor gives for the source, on a cache hit as on a miss, with a demo or without.
\<close>

theorem content_is_escaped_body:
  assumes "reachable E st" and "compile E rootDir src file st = (Inr r, st')"
  shows "\<exists>body fm. matter E src = Inr (body, fm) \<and> content (pageData r) = escapeHtml E body"
proof (cases "map_of (cache st) src")
  case (Some r0)
  then have "r = r0" using assms(2) compile_hit [OF Some, of E rootDir "file"] by simp
  then show ?thesis using content_ok_hit [OF reachable_content_ok [OF assms(1)] Some] by simp
next
  case None
  obtain x st2 where p: "pipeline E rootDir src file st = (x, st2)"
    by (cases "pipeline E rootDir src file st")
  have "x = Inr r" using assms(2) compile_miss [OF None, of E rootDir "file"] p
    by (auto split: sum.splits)
  then show ?thesis using pipeline_content p by blast
qed

lemma demo_first:
  "\<exists>r s1. compile demoEnv ''/docs'' ''# <b>'' ''/docs/a.md'' init = (Inr r, s1)"
  by (simp add: compile_def demoEnv_def fakeEnv_def bindM_def cache_get_def lru_get_def
      init_def callE_def liftE_def returnM_def cache_set_def inferDescription_def obj_get_def
      Let_def genComponentCode_def vanillaSource_def tsToJs_def)

lemma demo_render:
  "\<exists>out. render demoEnv ''# <b>'' = Inr out \<and> out_vueCode out = Some ''<template><b/></template>''"
  by (simp add: demoEnv_def fakeEnv_def)

lemma demo_escape: "escapeHtml demoEnv ''# <b>'' = ''# &lt;b>''"
proof -
  have "replaceAll ''<'' ''&lt;'' ''# <b>'' = ''# &lt;b>''" by code_simp
  then show ?thesis by (simp add: demoEnv_def fakeEnv_def)
qed

text \<open>
  Claim C8, witness: a page in which the renderer finds a demo, so that the component
  comes from \<open>genComponentCode\<close>; its \<open>content\<close> is the escaped body.
\<close>

theorem content_is_escaped_body_witness:
  "\<exists>r s1. reachable demoEnv init \<and>
     compile demoEnv ''/docs'' ''# <b>'' ''/docs/a.md'' init = (Inr r, s1) \<and>
     (\<exists>out. render demoEnv ''# <b>'' = Inr out \<and>
        out_vueCode out = Some ''<template><b/></template>'') \<and>
     content (pageData r) = ''# &lt;b>''"
proof -
  obtain r s1 where f: "compile demoEnv ''/docs'' ''# <b>'' ''/docs/a.md'' init = (Inr r, s1)"
    using demo_first by blast
  have m: "matter demoEnv ''# <b>'' = Inr (''# <b>'', [])" by (simp add: demoEnv_def fakeEnv_def)
  obtain body fm where "matter demoEnv ''# <b>'' = Inr (body, fm)"
    and c: "content (pageData r) = escapeHtml demoEnv body"
    using content_is_escaped_body [OF reachable.start f] by blast
  then have "body = ''# <b>''" using m by simp
  then have "content (pageData r) = ''# &lt;b>''" using c demo_escape by simp
  then show ?thesis using f reachable.start demo_render by blast
qed

subsection \<open>The bound of the cache\<close>

lemma length_get: "length (snd (lru_get k c)) \<le> length c"
proof (cases "map_of c k")
  case None then show ?thesis by (simp add: lru_get_def)
next
  case (Some v)
  then have "(k, v) \<in> set c" by (rule map_of_SomeD)
  then have "length (filter (\<lambda>e. fst e \<noteq> k) c) < length c"
    by (intro length_filter_less[of "(k, v)"]) auto
  then show ?thesis using Some by (simp add: lru_get_def)
qed

lemma reachable_bound: "reachable E st \<Longrightarrow> length (cache st) \<le> 1024"
proof (induction rule: reachable.induct)
  case start
  show ?case by (simp add: init_def)
next
  case (compiled st rd s f)
  show ?case
  proof (cases "map_of (cache st) s")
    case (Some r0)
    have "length (snd (lru_get s (cache st))) \<le> length (cache st)" by (rule length_get)
    then show ?thesis using compile_hit [OF Some, of E rd f] Some compiled.IH
      by (simp add: lru_get_def)
  next
    case None
    obtain x st2 where p: "pipeline E rd s f st = (x, st2)"
      by (cases "pipeline E rd s f st")
    have c: "cache st2 = cache st" using pipeline_cache [OF p] .
    show ?thesis using compile_miss [OF None, of E rd f] p c compiled.IH
      by (cases x) (simp_all add: lru_set_def cache_max_def)
  qed
qed

text \<open>
  Claim C9. In every state that calls of compile lead to, the cache holds at most 1024
  entries. A call that returns a result puts the entry of its source first: on a miss in
  front of the other entries, of which the last one, the least recently used, is dropped
  when there are 1024 already; on a hit by moving the entry of the source to the front.
\<close>

theorem cache_bounded_lru:
  assumes "reachable E st" and "compile E rootDir src file st = (Inr r, st')"
  shows "length (cache st) \<le> 1024 \<and> length (cache st') \<le> 1024 \<and>
         (map_of (cache st) src = None \<longrightarrow>
            cache st' = (src, r) # (if length (cache st) < 1024 then cache st
                                    else butlast (cache st))) \<and>
         (map_of (cache st) src \<noteq> None \<longrightarrow>
            cache st' = (src, r) # filter (\<lambda>e. fst e \<noteq> src) (cache st))"
proof -
  have b: "length (cache st) \<le> 1024" using assms(1) by (rule reachable_bound)
  have "reachable E (snd (compile E rootDir src file st))"
    using assms(1) by (rule reachable.compiled)
  then have b': "length (cache st') \<le> 1024" using reachable_bound assms(2) by fastforce
  have hit: "cache st' = (src, r) # filter (\<lambda>e. fst e \<noteq> src) (cache st)"
    if ne: "map_of (cache st) src \<noteq> None"
  proof -
    obtain r0 where s: "map_of (cache st) src = Some r0" using ne by auto
    show ?thesis using assms(2) compile_hit [OF s, of E rootDir "file"] by auto
  qed
  have miss: "cache st' = (src, r) # (if length (cache st) < 1024 then cache st
                                    else butlast (cache st))"
    if n: "map_of (cache st) src = None"
  proof -
    obtain x st2 where p: "pipeline E rootDir src file st = (x, st2)"
      by (cases "pipeline E rootDir src file st")
    have c: "cache st2 = cache st" using pipeline_cache [OF p] .
    have "x = Inr r" and st': "st' = st2\<lparr>cache := lru_set cache_max src r (cache st2)\<rparr>"
      using assms(2) compile_miss [OF n, of E rootDir "file"] p by (auto split: sum.splits)
    have "src \<notin> fst ` set (cache st)" using n by (simp add: map_of_eq_None_iff)
    then have f: "filter (\<lambda>e. fst e \<noteq> src) (cache st) = cache st"
      by (intro filter_True) auto
    have "take 1023 (cache st) = (if length (cache st) < 1024 then cache st
                                    else butlast (cache st))"
      using b by (auto simp: butlast_conv_take)
    then show ?thesis using st' c f by (simp add: lru_set_def cache_max_def)
  qed
  show ?thesis using b b' hit miss by blast
qed

text \<open>With the stand-in collaborators the pipeline returns a result for every source.\<close>

lemma fake_pipeline_ok: "\<exists>r st'. pipeline fakeEnv rootDir src file st = (Inr r, st')"
  by (simp add: pipeline_def fakeEnv_def bindM_def callE_def liftE_def returnM_def
      inferDescription_def obj_get_def Let_def)

lemma reachable_fill: "reachable fakeEnv (fill n)"
  by (induction n) (auto intro: reachable.intros)

lemma fill_cache:
  "length (cache (fill n)) = min n 1024 \<and>
   fst ` set (cache (fill n)) \<subseteq> (\<lambda>i. replicate i CHR ''a'') ` {..<n}"
proof (induction n)
  case 0
  show ?case by (simp add: init_def)
next
  case (Suc n)
  let ?k = "replicate n CHR ''a''"
  have "?k \<notin> (\<lambda>i. replicate i CHR ''a'') ` {..<n}"
  proof
    assume "?k \<in> (\<lambda>i. replicate i CHR ''a'') ` {..<n}"
    then obtain i where "i < n" "replicate n CHR ''a'' = replicate i CHR ''a''" by auto
    then have "length (replicate n CHR ''a'') = length (replicate i CHR ''a'')" by simp
    then show False using \<open>i < n\<close> by simp
  qed
  then have nk: "?k \<notin> fst ` set (cache (fill n))" using Suc by blast
  then have none: "map_of (cache (fill n)) ?k = None" by (simp add: map_of_eq_None_iff)
  have f: "filter (\<lambda>e. fst e \<noteq> ?k) (cache (fill n)) = cache (fill n)"
    using nk by (intro filter_True) force
  obtain r st' where p: "pipeline fakeEnv ''/docs'' ?k ''/docs/a.md'' (fill n) = (Inr r, st')"
    using fake_pipeline_ok by blast
  have c: "cache st' = cache (fill n)" using pipeline_cache [OF p] .
  have eq: "cache (fill (Suc n)) = take 1024 ((?k, r) # cache (fill n))"
    using compile_miss [OF none, of fakeEnv "''/docs''" "''/docs/a.md''"] p c f
    by (simp add: lru_set_def cache_max_def)
  have "length (cache (fill (Suc n))) = min (Suc n) 1024" unfolding eq using Suc by simp
  moreover have "fst ` set (cache (fill (Suc n))) \<subseteq> (\<lambda>i. replicate i CHR ''a'') ` {..<Suc n}"
  proof
    fix k assume "k \<in> fst ` set (cache (fill (Suc n)))"
    then have "k \<in> fst ` set ((?k, r) # cache (fill n))"
      unfolding eq by (auto dest!: in_set_takeD)
    then have "k = ?k \<or> k \<in> (\<lambda>i. replicate i CHR ''a'') ` {..<n}" using Suc by auto
    then show "k \<in> (\<lambda>i. replicate i CHR ''a'') ` {..<Suc n}" by (auto simp: lessThan_Suc)
  qed
  ultimately show ?case by simp
qed

text \<open>
  Claim C9, witness: after 1024 different sources the cache is full; the call on one
  more source returns a result, and the cache holds it in front of the entries it held,
  without the last of them.
\<close>

theorem cache_bounded_lru_witness:
  "\<exists>r st'. reachable fakeEnv (fill 1024) \<and> length (cache (fill 1024)) = 1024 \<and>
     compile fakeEnv ''/docs'' (replicate 1024 CHR ''a'') ''/docs/a.md'' (fill 1024) = (Inr r, st') \<and>
     map_of (cache (fill 1024)) (replicate 1024 CHR ''a'') = None \<and>
     length (cache st') \<le> 1024 \<and>
     cache st' = (replicate 1024 CHR ''a'', r) # butlast (cache (fill 1024))"
proof -
  let ?k = "replicate 1024 CHR ''a''"
  have len: "length (cache (fill 1024)) = 1024" using fill_cache [of 1024] by simp
  have "?k \<notin> (\<lambda>i. replicate i CHR ''a'') ` {..<1024}"
  proof
    assume "?k \<in> (\<lambda>i. replicate i CHR ''a'') ` {..<1024}"
    then obtain i where "i < 1024" "replicate 1024 CHR ''a'' = replicate i CHR ''a''" by auto
    then have "length (replicate 1024 CHR ''a'') = length (replicate i CHR ''a'')" by simp
    then show False using \<open>i < 1024\<close> by simp
  qed
  then have "?k \<notin> fst ` set (cache (fill 1024))" using fill_cache [of 1024] by blast
  then have none: "map_of (cache (fill 1024)) ?k = None" by (simp add: map_of_eq_None_iff)
  obtain r st2 where p: "pipeline fakeEnv ''/docs'' ?k ''/docs/a.md'' (fill 1024) = (Inr r, st2)"
    using fake_pipeline_ok by blast
  obtain st' where f: "compile fakeEnv ''/docs'' ?k ''/docs/a.md'' (fill 1024) = (Inr r, st')"
    using compile_miss [OF none, of fakeEnv "''/docs''" "''/docs/a.md''"] p by simp
  show ?thesis
    using cache_bounded_lru [OF reachable_fill f] reachable_fill [of 1024] len none f by auto
qed

subsection \<open>The file path\<close>

lemma same_returnM: "same_result (returnM x) (returnM x)"
  by (simp add: same_result_def returnM_def)

lemma same_liftE: "same_result (liftE r) (liftE r)"
  by (simp add: same_result_def liftE_def)

lemma same_callE: "same_result (callE c r) (callE c' r)"
  by (simp add: same_result_def callE_def)

lemma fst_bindM:
  "fst (bindM m f st) = (case fst (m st) of Inl e \<Rightarrow> Inl e | Inr x \<Rightarrow> fst (f x (snd (m st))))"
  by (cases "m st") (auto simp: bindM_def split: sum.splits)

lemma same_bindM:
  assumes "same_result m m'" and "\<And>x. same_result (f x) (f' x)"
  shows "same_result (bindM m f) (bindM m' f')"
  unfolding same_result_def
proof (intro allI)
  fix st st'
  have m: "fst (m st) = fst (m' st')" using assms(1) unfolding same_result_def by blast
  show "fst (bindM m f st) = fst (bindM m' f' st')"
  proof (cases "fst (m st)")
    case (Inl e)
    then show ?thesis using m by (simp add: fst_bindM)
  next
    case (Inr x)
    have "fst (f x (snd (m st))) = fst (f' x (snd (m' st')))"
      using assms(2) unfolding same_result_def by blast
    moreover have "fst (m' st') = Inr x" using m Inr by simp
    ultimately show ?thesis using Inr by (simp add: fst_bindM)
  qed
qed

lemma same_tsToJs: "same_result (tsToJs E src) (tsToJs E src)"
  unfolding tsToJs_def
  by (auto intro!: same_bindM same_returnM same_callE)

lemma same_vanillaSource: "same_result (vanillaSource E vueCode) (vanillaSource E vueCode)"
  unfolding vanillaSource_def
  by (intro same_bindM same_returnM same_tsToJs)

lemma same_genComponentCode:
  "same_result (genComponentCode E vueCode hs pd) (genComponentCode E vueCode hs pd)"
  unfolding genComponentCode_def Let_def
  by (intro same_bindM same_returnM same_callE same_vanillaSource)

text \<open>The pipeline reads the file path twice: for the relative path and for the time of
  the last change.\<close>

lemma same_pipeline:
  assumes "relative E rootDir f1 = relative E rootDir f2" and "statSync E f1 = statSync E f2"
  shows "same_result (pipeline E rootDir src f1) (pipeline E rootDir src f2)"
  unfolding pipeline_def Let_def split_def assms
  by (auto intro!: same_bindM same_returnM same_callE same_liftE same_genComponentCode
      split: option.splits)

text \<open>
  Claim C2, counterexample: from the empty cache, with the stand-in collaborators, the
  same source compiled for \<open>/docs/a.md\<close> and for \<open>/docs/b.md\<close> gives two results: the page
  data hold the relative path of the file.
\<close>

theorem compile_depends_on_file:
  "fst (compile fakeEnv ''/docs'' ''# Hi'' ''/docs/a.md'' init) \<noteq>
   fst (compile fakeEnv ''/docs'' ''# Hi'' ''/docs/b.md'' init)"
  by (simp add: compile_def fakeEnv_def bindM_def cache_get_def lru_get_def init_def callE_def
      liftE_def returnM_def cache_set_def inferDescription_def obj_get_def Let_def)

text \<open>
  Claim C2, amended. From one state, compile gives the same outcome and the same cache
  for a source and two file paths when the cache holds the source (the result of the
  earlier call is returned, whatever the path), or when the two paths have the same path
  relative to the root and the same outcome of the file-stat collaborator.
\<close>

theorem compile_file_independence:
  assumes "map_of (cache st) src \<noteq> None \<or>
           (relative E rootDir f1 = relative E rootDir f2 \<and> statSync E f1 = statSync E f2)"
  shows "fst (compile E rootDir src f1 st) = fst (compile E rootDir src f2 st) \<and>
         cache (snd (compile E rootDir src f1 st)) = cache (snd (compile E rootDir src f2 st))"
proof (cases "map_of (cache st) src")
  case (Some r0)
  show ?thesis unfolding compile_hit [OF Some] by simp
next
  case None
  then have eq: "relative E rootDir f1 = relative E rootDir f2" "statSync E f1 = statSync E f2"
    using assms by simp_all
  obtain x1 s1 where p1: "pipeline E rootDir src f1 st = (x1, s1)"
    by (cases "pipeline E rootDir src f1 st")
  obtain x2 s2 where p2: "pipeline E rootDir src f2 st = (x2, s2)"
    by (cases "pipeline E rootDir src f2 st")
  have "fst (pipeline E rootDir src f1 st) = fst (pipeline E rootDir src f2 st)"
    using same_pipeline [OF eq] unfolding same_result_def by blast
  then have x: "x1 = x2" using p1 p2 by simp
  have c: "cache s1 = cache st" "cache s2 = cache st"
    using pipeline_cache [OF p1] pipeline_cache [OF p2] by simp_all
  show ?thesis unfolding compile_miss [OF None] p1 p2 using x c
    by (cases x2) simp_all
qed

text \<open>
  Claim C2, witness: once \<open># Hi\<close> was compiled for \<open>/docs/a.md\<close>, compiling it for
  \<open>/docs/b.md\<close> gives the result that compiling it for \<open>/docs/a.md\<close> gives.
\<close>

theorem compile_file_independence_witness:
  "\<exists>r s1. compile fakeEnv ''/docs'' ''# Hi'' ''/docs/a.md'' init = (Inr r, s1) \<and>
     map_of (cache s1) ''# Hi'' = Some r \<and>
     fst (compile fakeEnv ''/docs'' ''# Hi'' ''/docs/a.md'' s1) =
     fst (compile fakeEnv ''/docs'' ''# Hi'' ''/docs/b.md'' s1)"
proof -
  obtain r s1 where f: "compile fakeEnv ''/docs'' ''# Hi'' ''/docs/a.md'' init = (Inr r, s1)"
    using fake_first by blast
  have hit: "map_of (cache s1) ''# Hi'' = Some r" using compile_ok_cached [OF f] by auto
  then have "map_of (cache s1) ''# Hi'' \<noteq> None \<or>
      (relative fakeEnv ''/docs'' ''/docs/a.md'' = relative fakeEnv ''/docs'' ''/docs/b.md'' \<and>
       statSync fakeEnv ''/docs/a.md'' = statSync fakeEnv ''/docs/b.md'')"
    by simp
  then show ?thesis using compile_file_independence f hit by blast
qed

subsection \<open>The preview payload\<close>

lemma obj_get_set: "obj_get (obj_set k v ob) k' = (if k' = k then v else obj_get ob k')"
  by (induction ob) (auto simp: obj_get_def)

lemma obj_get_spread:
  "distinct (map fst src) \<Longrightarrow>
   obj_get (foldl (\<lambda>acc p. obj_set (fst p) (snd p) acc) ob src) k =
     (case map_of src k of Some v \<Rightarrow> v | None \<Rightarrow> obj_get ob k)"
proof (induction src arbitrary: ob)
  case Nil
  show ?case by simp
next
  case (Cons p ps)
  have "map_of ps (fst p) = None" using Cons.prems by (simp add: map_of_eq_None_iff)
  then show ?case using Cons by (cases p) (auto simp: obj_get_set split: option.splits)
qed

text \<open>
  Claim C10. In the preview payload, for a frontmatter that has every key once: the
  properties \<open>us\<close>, \<open>cn\<close> and \<open>docHtml\<close> hold the frontmatter's value of that name when
  the frontmatter has one, and the computed value otherwise; the properties
  \<open>relativePath\<close>, \<open>sourceCode\<close> and \<open>jsSourceCode\<close> hold the computed values, whatever the
  frontmatter holds.
\<close>

theorem payload_override_order:
  assumes "distinct (map fst (frontmatter pd))"
  shows "obj_get (jsfiddlePayload E us cn pd vueCode jsSourceCode) ''us'' =
           (case map_of (frontmatter pd) ''us'' of Some v \<Rightarrow> v | None \<Rightarrow> us) \<and>
         obj_get (jsfiddlePayload E us cn pd vueCode jsSourceCode) ''cn'' =
           (case map_of (frontmatter pd) ''cn'' of Some v \<Rightarrow> v | None \<Rightarrow> cn) \<and>
         obj_get (jsfiddlePayload E us cn pd vueCode jsSourceCode) ''docHtml'' =
           (case map_of (frontmatter pd) ''docHtml'' of
              Some v \<Rightarrow> v
            | None \<Rightarrow> JStr (splitHead preMarker (html pd))) \<and>
         obj_get (jsfiddlePayload E us cn pd vueCode jsSourceCode) ''relativePath'' =
           JStr (relativePath pd) \<and>
         obj_get (jsfiddlePayload E us cn pd vueCode jsSourceCode) ''sourceCode'' =
           JStr (base64 E vueCode) \<and>
         obj_get (jsfiddlePayload E us cn pd vueCode jsSourceCode) ''jsSourceCode'' =
           JStr (base64 E jsSourceCode)"
  using assms
  apply (simp only: jsfiddlePayload_def obj_literal_def foldl.simps add_prop.simps
      obj_get_set obj_get_spread)
  apply (simp add: obj_get_def)
  done

text \<open>
  Claim C10, witness: a frontmatter with the keys \<open>us\<close> and \<open>relativePath\<close>. The payload
  holds the frontmatter's \<open>us\<close>, the computed \<open>cn\<close> and the computed \<open>relativePath\<close>.
\<close>

theorem payload_override_order_witness:
  "distinct (map fst [(''us'', JStr ''mine''), (''relativePath'', JStr ''x'')]) \<and>
   obj_get (jsfiddlePayload fakeEnv (JStr ''en'') (JStr ''zh'')
      \<lparr>title = [], description = JStr [],
       frontmatter = [(''us'', JStr ''mine''), (''relativePath'', JStr ''x'')],
       headers = None, relativePath = ''a.md'', content = [], html = [], lastUpdated = 0\<rparr>
      ''v'' ''j'') ''us'' = JStr ''mine'' \<and>
   obj_get (jsfiddlePayload fakeEnv (JStr ''en'') (JStr ''zh'')
      \<lparr>title = [], description = JStr [],
       frontmatter = [(''us'', JStr ''mine''), (''relativePath'', JStr ''x'')],
       headers = None, relativePath = ''a.md'', content = [], html = [], lastUpdated = 0\<rparr>
      ''v'' ''j'') ''cn'' = JStr ''zh'' \<and>
   obj_get (jsfiddlePayload fakeEnv (JStr ''en'') (JStr ''zh'')
      \<lparr>title = [], description = JStr [],
       frontmatter = [(''us'', JStr ''mine''), (''relativePath'', JStr ''x'')],
       headers = None, relativePath = ''a.md'', content = [], html = [], lastUpdated = 0\<rparr>
      ''v'' ''j'') ''relativePath'' = JStr ''a.md''"
  using payload_override_order [of
      "\<lparr>title = [], description = JStr [],
       frontmatter = [(''us'', JStr ''mine''), (''relativePath'', JStr ''x'')],
       headers = None, relativePath = ''a.md'', content = [], html = [], lastUpdated = 0\<rparr>"
      fakeEnv "JStr ''en''" "JStr ''zh''" "''v''" "''j''"]
  by simp

subsection \<open>The vanilla variant\<close>

lemma trim_Cons: "isSpace c \<Longrightarrow> trim (c # s) = trim s"
  by (simp add: trim_def)

lemma trim_snoc: "isSpace c \<Longrightarrow> trim (s @ [c]) = trim s"
proof (cases "\<forall>x\<in>set s. isSpace x")
  case True
  assume c: "isSpace c"
  have 1: "dropWhile isSpace s = []" using True by simp
  have 2: "dropWhile isSpace (s @ [c]) = []" using True c by simp
  show ?thesis unfolding trim_def 1 2 ..
next
  case False
  assume c: "isSpace c"
  have "dropWhile isSpace (s @ [c]) = dropWhile isSpace s @ [c]"
    using False by (auto simp: dropWhile_append)
  then show ?thesis using c by (simp add: trim_def)
qed

lemma isSpace_NL: "isSpace NL" and isSpace_SP: "isSpace CHR '' ''"
  by (simp_all add: isSpace_def)

lemma assembleVanilla_no_script:
  "assembleVanilla t [] s = trim (t @ [NL, NL] @ s)"
proof -
  have "assembleVanilla t [] s =
      trim (NL # (((t @ [NL, NL] @ s) @ [NL]) @ [CHR '' '']) @ [CHR '' ''])"
    by (simp add: assembleVanilla_def)
  also have "\<dots> = trim (t @ [NL, NL] @ s)"
    by (simp only: trim_Cons trim_snoc isSpace_NL isSpace_SP)
  finally show ?thesis .
qed

lemma sublist_trim: "sublist (trim x) x"
proof -
  have "suffix (dropWhile isSpace (rev (dropWhile isSpace x))) (rev (dropWhile isSpace x))"
    by (rule suffix_dropWhile)
  then have "prefix (trim x) (dropWhile isSpace x)"
    unfolding trim_def by (simp add: suffix_to_prefix)
  moreover have "suffix (dropWhile isSpace x) x" by (rule suffix_dropWhile)
  ultimately have "sublist (trim x) (dropWhile isSpace x)" "sublist (dropWhile isSpace x) x"
    by (simp_all add: prefix_imp_sublist suffix_imp_sublist)
  then show ?thesis by (rule sublist_order.order_trans)
qed

lemma wrapScript_empty:
  "out = None \<or> (\<exists>js. out = Some js \<and> trim js = []) \<Longrightarrow> wrapScript out = []"
  by (auto simp: wrapScript_def)

text \<open>
  Claim C7. When the transpiler returns no text (the report of the linter has no output)
  or a text that is empty once trimmed, the vanilla variant is the template and the style
  of the demo, in this order, two line feeds between them, trimmed: no script element is
  put in. A text without a line feed, such as \<open><script>\<close>, that is found in the vanilla
  variant is found in the template or in the style.
\<close>

theorem vanilla_without_script:
  assumes "tsToJs E (fetchCode E vueCode ''scriptContent'') st = (Inr out, st')"
    and "out = None \<or> (\<exists>js. out = Some js \<and> trim js = [])"
  shows "vanillaSource E vueCode st =
           (Inr (trim (fetchCode E vueCode ''template'' @ [NL, NL] @ fetchCode E vueCode ''style'')),
            st') \<and>
         (\<forall>q. NL \<notin> set q \<and>
              sublist q
                (trim (fetchCode E vueCode ''template'' @ [NL, NL] @ fetchCode E vueCode ''style''))
              \<longrightarrow> sublist q (fetchCode E vueCode ''template'') \<or>
                  sublist q (fetchCode E vueCode ''style''))"
proof -
  have w: "wrapScript out = []" using assms(2) by (rule wrapScript_empty)
  have 1: "vanillaSource E vueCode st =
           (Inr (trim (fetchCode E vueCode ''template'' @ [NL, NL] @ fetchCode E vueCode ''style'')),
            st')"
    using assms(1) w
    by (simp add: vanillaSource_def bindM_def returnM_def assembleVanilla_no_script)
  have 2: "sublist q (fetchCode E vueCode ''template'') \<or> sublist q (fetchCode E vueCode ''style'')"
    if nl: "NL \<notin> set q"
      and sub: "sublist q
        (trim (fetchCode E vueCode ''template'' @ [NL, NL] @ fetchCode E vueCode ''style''))"
    for q
  proof -
    have "sublist q (fetchCode E vueCode ''template'' @ [NL, NL] @ fetchCode E vueCode ''style'')"
      using sub sublist_trim by (rule sublist_order.order_trans)
    then have a: "sublist q
        (fetchCode E vueCode ''template'' @ NL # (NL # fetchCode E vueCode ''style''))"
      by simp
    have "sublist q (fetchCode E vueCode ''template'') \<or>
        sublist q ([] @ NL # fetchCode E vueCode ''style'')"
      using sublist_sep [OF nl a] by simp
    then show ?thesis using sublist_sep [OF nl, of "[]" "fetchCode E vueCode ''style''"] by auto
  qed
  show ?thesis using 1 2 by blast
qed

lemma typeOnly_parts:
  "fetchCode typeOnlyEnv code ''scriptContent'' = ''type A = number''"
  "fetchCode typeOnlyEnv code ''template'' = ''<template><b/></template>''"
  "fetchCode typeOnlyEnv code ''style'' = ''<style></style>''"
  by (simp_all add: typeOnlyEnv_def fakeEnv_def)

lemma typeOnly_tsToJs:
  "\<exists>st'. tsToJs typeOnlyEnv ''type A = number'' init = (Inr None, st')"
  by (simp add: tsToJs_def typeOnlyEnv_def fakeEnv_def bindM_def callE_def returnM_def)

lemma typeOnly_trim:
  "trim (''<template><b/></template>'' @ [NL, NL] @ ''<style></style>'') =
   ''<template><b/></template>'' @ [NL, NL] @ ''<style></style>''"
  by code_simp

lemma typeOnly_clean:
  "\<not> sublist ''<script>'' ''<template><b/></template>''"
  "\<not> sublist ''<script>'' ''<style></style>''"
  by code_simp+

text \<open>
  Claim C7, witness: a demo whose script is a type alias. The transpiler returns nothing,
  and the vanilla variant is the template and the style, without a script element.
\<close>

theorem vanilla_without_script_witness:
  "\<exists>st'. tsToJs typeOnlyEnv (fetchCode typeOnlyEnv ''demo'' ''scriptContent'') init =
            (Inr None, st') \<and>
     vanillaSource typeOnlyEnv ''demo'' init =
       (Inr (''<template><b/></template>'' @ [NL, NL] @ ''<style></style>''), st') \<and>
     \<not> sublist ''<script>'' (''<template><b/></template>'' @ [NL, NL] @ ''<style></style>'')"
proof -
  obtain st' where
    f: "tsToJs typeOnlyEnv (fetchCode typeOnlyEnv ''demo'' ''scriptContent'') init =
          (Inr None, st')"
    using typeOnly_tsToJs by (auto simp: typeOnly_parts)
  have "None = None \<or> (\<exists>js. (None :: string option) = Some js \<and> trim js = [])" by simp
  note th = vanilla_without_script [OF f this, unfolded typeOnly_parts typeOnly_trim]
  have "NL \<notin> set ''<script>''" by simp
  then show ?thesis using f th typeOnly_clean by blast
qed

subsection \<open>The matcher\<close>

lemma first_match_sound:
  "first_match ml s r i n = Some (k, st) \<Longrightarrow> st \<in> set (ms ml s r (i + k, Map.empty))"
proof (induction n arbitrary: i k)
  case 0
  then show ?case by simp
next
  case (Suc n)
  show ?case
  proof (cases "ms ml s r (i, Map.empty)")
    case Nil
    then obtain k' where k: "k = Suc k'" "first_match ml s r (Suc i) n = Some (k', st)"
      using Suc.prems by auto
    then show ?thesis using Suc.IH [of "Suc i" k'] by simp
  next
    case (Cons a as)
    then show ?thesis using Suc.prems by simp
  qed
qed

lemma ms_Cat_elem:
  "x \<in> set (ms ml s (Cat a b) st) \<Longrightarrow> \<exists>y \<in> set (ms ml s a st). x \<in> set (ms ml s b y)"
  by (auto simp: ms.simps)

lemma ms_Grp_elem: "x \<in> set (ms ml s (Grp n r) st) \<Longrightarrow> snd x n \<noteq> None"
  by (auto simp: ms.simps)

lemma step_bounds: "x \<in> set (step s ok st) \<Longrightarrow> fst st \<le> fst x \<and> fst x \<le> length s"
  by (auto simp: step_def split: if_splits)

lemma cond_bounds:
  "fst st \<le> length s \<Longrightarrow> x \<in> set (cond b st) \<Longrightarrow> fst st \<le> fst x \<and> fst x \<le> length s"
  by (auto simp: cond_def split: if_splits)

text \<open>A match never moves backwards and never ends behind the text: the two tests that the
  quantifier makes for its termination proof never hold.\<close>

lemma ms_bounds:
  "fst st \<le> length s \<Longrightarrow> x \<in> set (ms ml s r st) \<Longrightarrow> fst st \<le> fst x \<and> fst x \<le> length s"
proof (induction ml s r st arbitrary: x rule: ms.induct)
  case (8 ml s a b st)
  from "8.prems"(2) obtain y where y: "y \<in> set (ms ml s a st)" "x \<in> set (ms ml s b y)"
    using ms_Cat_elem by blast
  have 1: "fst st \<le> fst y \<and> fst y \<le> length s" using "8.IH"(1) "8.prems"(1) y(1) by blast
  then have "fst y \<le> fst x \<and> fst x \<le> length s" using "8.IH"(2) y by blast
  then show ?case using 1 by simp
next
  case (9 ml s a b st)
  from "9.prems"(2) have "x \<in> set (ms ml s a st) \<or> x \<in> set (ms ml s b st)"
    by (simp add: ms.simps)
  then show ?case using "9.IH" "9.prems"(1) by blast
next
  case (10 ml s n r st)
  from "10.prems"(2) obtain y where "y \<in> set (ms ml s r st)" "fst x = fst y"
    by (auto simp: ms.simps)
  then show ?case using "10.IH" "10.prems"(1) by fastforce
next
  case (11 ml s n st)
  show ?case
  proof (cases "snd st n")
    case None
    then show ?thesis using "11.prems" by (simp add: ms.simps)
  next
    case (Some t)
    then have x: "x = (fst st + length t, snd st)" and t: "take (length t) (drop (fst st) s) = t"
      using "11.prems"(2) by (auto simp: ms.simps cond_def split: if_splits)
    have "length (take (length t) (drop (fst st) s)) = length t" using t by simp
    then have "length t \<le> length (drop (fst st) s)" by simp
    then show ?thesis using x "11.prems"(1) by simp
  qed
next
  case (12 ml s g mn mx r st)
  show ?case
  proof (cases "mx = Some 0")
    case True
    then show ?thesis using "12.prems" by (simp add: ms.simps)
  next
    case False
    define more where "more = concat (map (\<lambda>st'.
              if (mn = 0 \<and> fst st' = fst st) \<or> fst st' < fst st \<or> length s < fst st' then []
              else ms ml s (Rep g (mn - 1) (map_option (\<lambda>k. k - 1) mx) r) st')
            (ms ml s r st))"
    have m: "fst st \<le> fst z \<and> fst z \<le> length s" if "z \<in> set more" for z
    proof -
      from that obtain st' where st': "st' \<in> set (ms ml s r st)"
        "\<not> ((mn = 0 \<and> fst st' = fst st) \<or> fst st' < fst st \<or> length s < fst st')"
        "z \<in> set (ms ml s (Rep g (mn - 1) (map_option (\<lambda>k. k - 1) mx) r) st')"
        unfolding more_def by (auto split: if_splits)
      have "fst st' \<le> fst z \<and> fst z \<le> length s"
        using "12.IH"(2) [OF False st'(1) st'(2)] st'(2,3) by auto
      then show ?thesis using st'(2) by auto
    qed
    have "x \<in> set more \<or> x = st"
      using "12.prems"(2) False unfolding more_def
      by (subst (asm) ms.simps) (auto simp: Let_def split: if_splits)
    then show ?thesis
    proof
      assume "x \<in> set more"
      then show ?thesis by (rule m)
    next
      assume "x = st"
      then show ?thesis using "12.prems"(1) by simp
    qed
  qed
qed (simp_all only: ms.simps step_bounds cond_bounds)

lemma step_elem:
  "x \<in> set (step s ok st) \<Longrightarrow>
   fst x = Suc (fst st) \<and> snd x = snd st \<and> fst st < length s \<and> ok (s ! fst st)"
  by (auto simp: step_def split: if_splits)

lemma run_refl: "p \<le> length s \<Longrightarrow> run s ok p p"
  by (auto simp: run_def)

lemma run_Suc: "p < length s \<Longrightarrow> ok (s ! p) \<Longrightarrow> run s ok (Suc p) q \<Longrightarrow> run s ok p q"
  unfolding run_def by (metis Suc_leD Suc_leI le_neq_implies_less)

text \<open>A quantifier over a pattern that reads one character: what it has read satisfies the
  pattern, and is at least as long as the least count.\<close>

lemma ms_Rep_chars:
  assumes single: "\<And>st. ms ml s r st = step s ok st"
  shows "fst st \<le> length s \<Longrightarrow> (case mx of None \<Rightarrow> True | Some k \<Rightarrow> mn \<le> k) \<Longrightarrow>
         x \<in> set (ms ml s (Rep g mn mx r) st) \<Longrightarrow>
         snd x = snd st \<and> run s ok (fst st) (fst x) \<and> fst st + mn \<le> fst x"
  using single
proof (induction ml s "Rep g mn mx r" st arbitrary: g mn mx x rule: ms.induct)
  case (12 ml s g mn mx st)
  show ?case
  proof (cases "mx = Some 0")
    case True
    then have "x = st" using "12.prems"(3) by (simp add: ms.simps)
    moreover have "mn = 0" using True "12.prems"(2) by simp
    ultimately show ?thesis using "12.prems"(1) by (simp add: run_refl)
  next
    case False
    have wf': "(case map_option (\<lambda>k. k - 1) mx of None \<Rightarrow> True | Some k \<Rightarrow> mn - 1 \<le> k)"
      using "12.prems"(2) False by (cases mx) auto
    have more: "snd x = snd st \<and> run s ok (fst st) (fst x) \<and> fst st + mn \<le> fst x"
      if st': "st' \<in> set (ms ml s r st)"
        and g: "\<not> ((mn = 0 \<and> fst st' = fst st) \<or> fst st' < fst st \<or> length s < fst st')"
        and x: "x \<in> set (ms ml s (Rep g (mn - 1) (map_option (\<lambda>k. k - 1) mx) r) st')" for st'
    proof -
      have s1: "fst st' = Suc (fst st)" "snd st' = snd st" "fst st < length s" "ok (s ! fst st)"
        using st' step_elem [of st' s ok st] unfolding "12.prems"(4) by simp_all
      have len: "fst st' \<le> length s" using g by simp
      have "snd x = snd st' \<and> run s ok (fst st') (fst x) \<and> fst st' + (mn - 1) \<le> fst x"
        using "12.hyps"(2) [OF False st' g len wf' x "12.prems"(4)] by simp
      then show ?thesis using s1 run_Suc by auto
    qed
    have "x = st \<and> mn = 0 \<or> (\<exists>st' \<in> set (ms ml s r st).
        \<not> ((mn = 0 \<and> fst st' = fst st) \<or> fst st' < fst st \<or> length s < fst st') \<and>
        x \<in> set (ms ml s (Rep g (mn - 1) (map_option (\<lambda>k. k - 1) mx) r) st'))"
      using "12.prems"(3) False
      by (subst (asm) ms.simps) (auto simp: Let_def split: if_splits)
    then show ?thesis using more "12.prems"(1) by (auto simp: run_refl)
  qed
qed

text \<open>The shape of a match of the heading pattern, by indices and by texts.\<close>

lemma headingMatch_positions:
  assumes "headingMatch body = Some cs"
  shows "\<exists>k p1 p2 p3 e.
           (k = 0 \<or> (k \<le> length body \<and> isLineTerminator (body ! (k - 1)))) \<and>
           run body isSpace k p1 \<and> p1 < p2 \<and> run body (\<lambda>c. c = CHR ''#'') p1 p2 \<and>
           p2 < p3 \<and> run body isSpace p2 p3 \<and>
           run body (\<lambda>c. \<not> isLineTerminator c) p3 e \<and>
           cs 1 = Some (slice body p3 e)"
proof -
  obtain k e where "re_exec True re_heading body 0 = Some (k, e, cs)"
    using assms by (auto simp: headingMatch_def)
  then have "first_match True body re_heading 0 (Suc (length body) - 0) = Some (k, e, cs)"
    unfolding re_exec_def by (simp del: first_match.simps)
  then have "(e, cs) \<in> set (ms True body re_heading (0 + k, Map.empty))"
    by (rule first_match_sound)
  then have m: "(e, cs) \<in> set (ms True body
      (Cat Bol (Cat (star Space) (Cat (plus1 (Lit CHR ''#'')) (Cat (plus1 Space)
        (Grp 1 (star Dot)))))) (k, Map.empty))"
    by (simp add: re_heading_def)
  from ms_Cat_elem [OF m] obtain y1 where y1: "y1 \<in> set (ms True body Bol (k, Map.empty))"
    and m1: "(e, cs) \<in> set (ms True body
      (Cat (star Space) (Cat (plus1 (Lit CHR ''#'')) (Cat (plus1 Space) (Grp 1 (star Dot))))) y1)"
    by blast
  have y1eq: "y1 = (k, Map.empty)"
    and start: "k = 0 \<or> (k \<le> length body \<and> isLineTerminator (body ! (k - 1)))"
    using y1 by (auto simp: ms.simps cond_def split: if_splits)
  have klen: "k \<le> length body" using start by auto
  from ms_Cat_elem [OF m1] obtain y2 where y2: "y2 \<in> set (ms True body (star Space) y1)"
    and m2: "(e, cs) \<in> set (ms True body
      (Cat (plus1 (Lit CHR ''#'')) (Cat (plus1 Space) (Grp 1 (star Dot)))) y2)"
    by blast
  have r2: "snd y2 = Map.empty" "run body isSpace k (fst y2)"
    using ms_Rep_chars [where st = y1 and mx = None and mn = 0 and x = y2 and g = True,
        OF ms.simps(5) [of True body]] y2 y1eq klen
    by (simp_all add: star_def)
  have len2: "fst y2 \<le> length body" using r2(2) by (simp add: run_def)
  from ms_Cat_elem [OF m2] obtain y3 where y3: "y3 \<in> set (ms True body (plus1 (Lit CHR ''#'')) y2)"
    and m3: "(e, cs) \<in> set (ms True body (Cat (plus1 Space) (Grp 1 (star Dot))) y3)"
    by blast
  have r3: "run body (\<lambda>c. c = CHR ''#'') (fst y2) (fst y3)" "fst y2 < fst y3"
    using ms_Rep_chars [where st = y2 and mx = None and mn = 1 and x = y3 and g = True,
        OF ms.simps(1) [of True body "CHR ''#''"]] y3 len2
    by (simp_all add: plus1_def)
  have len3: "fst y3 \<le> length body" using r3(1) by (simp add: run_def)
  from ms_Cat_elem [OF m3] obtain y4 where y4: "y4 \<in> set (ms True body (plus1 Space) y3)"
    and m4: "(e, cs) \<in> set (ms True body (Grp 1 (star Dot)) y4)"
    by blast
  have r4: "run body isSpace (fst y3) (fst y4)" "fst y3 < fst y4"
    using ms_Rep_chars [where st = y3 and mx = None and mn = 1 and x = y4 and g = True,
        OF ms.simps(5) [of True body]] y4 len3
    by (simp_all add: plus1_def)
  have len4: "fst y4 \<le> length body" using r4(1) by (simp add: run_def)
  from m4 obtain y5 where y5: "y5 \<in> set (ms True body (star Dot) y4)"
    and ecs: "e = fst y5" "cs = (snd y5)(1 \<mapsto> take (fst y5 - fst y4) (drop (fst y4) body))"
    by (auto simp: ms.simps)
  have r5: "run body (\<lambda>c. \<not> isLineTerminator c) (fst y4) (fst y5)"
    using ms_Rep_chars [where st = y4 and mx = None and mn = 0 and x = y5 and g = True,
        OF ms.simps(2) [of True body]] y5 len4
    by (simp_all add: star_def)
  have "cs 1 = Some (slice body (fst y4) e)" using ecs by (simp add: slice_def)
  then show ?thesis using start r2(2) r3 r4 r5 ecs(1) by blast
qed

lemma drop_slice: "p \<le> q \<Longrightarrow> q \<le> length s \<Longrightarrow> drop p s = slice s p q @ drop q s"
  unfolding slice_def by (metis add_diff_cancel_left' append_take_drop_id drop_drop le_Suc_ex add.commute)

lemma run_slice: "run s ok p q \<Longrightarrow> list_all ok (slice s p q)"
  unfolding run_def slice_def list_all_length by (auto simp: less_diff_conv add.commute)

lemma slice_Nil: "run s ok p q \<Longrightarrow> (slice s p q = []) = (p = q)"
  unfolding run_def slice_def by auto

lemma headingMatch_shape:
  assumes "headingMatch body = Some cs"
  shows "\<exists>pre ws hs sp t rest.
           body = pre @ ws @ hs @ sp @ t @ rest \<and>
           (pre = [] \<or> isLineTerminator (last pre)) \<and>
           list_all isSpace ws \<and>
           hs \<noteq> [] \<and> list_all (\<lambda>c. c = CHR ''#'') hs \<and>
           sp \<noteq> [] \<and> list_all isSpace sp \<and>
           list_all (\<lambda>c. \<not> isLineTerminator c) t \<and>
           cs 1 = Some t"
proof -
  obtain k p1 p2 p3 e where
    start: "k = 0 \<or> (k \<le> length body \<and> isLineTerminator (body ! (k - 1)))"
    and ws: "run body isSpace k p1"
    and hs: "p1 < p2" "run body (\<lambda>c. c = CHR ''#'') p1 p2"
    and sp: "p2 < p3" "run body isSpace p2 p3"
    and t: "run body (\<lambda>c. \<not> isLineTerminator c) p3 e"
    and c: "cs 1 = Some (slice body p3 e)"
    using headingMatch_positions [OF assms] by blast
  have le: "k \<le> p1" "p1 \<le> length body" "p1 \<le> p2" "p2 \<le> length body" "p2 \<le> p3"
    "p3 \<le> length body" "p3 \<le> e" "e \<le> length body"
    using ws hs sp t by (simp_all add: run_def)
  have "body = take k body @ drop k body" by simp
  also have "drop k body = slice body k p1 @ drop p1 body" using le by (intro drop_slice)
  also have "drop p1 body = slice body p1 p2 @ drop p2 body" using le by (intro drop_slice)
  also have "drop p2 body = slice body p2 p3 @ drop p3 body" using le by (intro drop_slice)
  also have "drop p3 body = slice body p3 e @ drop e body" using le by (intro drop_slice)
  finally have split: "body = take k body @ slice body k p1 @ slice body p1 p2 @
      slice body p2 p3 @ slice body p3 e @ drop e body" .
  have pre: "take k body = [] \<or> isLineTerminator (last (take k body))"
  proof (cases "k = 0")
    case True then show ?thesis by simp
  next
    case False
    then have "k \<le> length body" "isLineTerminator (body ! (k - 1))" using start by auto
    then have ne: "take k body \<noteq> []" using False by auto
    have "last (take k body) = take k body ! (length (take k body) - 1)"
      using ne by (rule last_conv_nth)
    also have "\<dots> = body ! (k - 1)" using False \<open>k \<le> length body\<close> by (simp add: min_def)
    finally show ?thesis using \<open>isLineTerminator (body ! (k - 1))\<close> by simp
  qed
  have "slice body p1 p2 \<noteq> []" "slice body p2 p3 \<noteq> []"
    using slice_Nil [OF hs(2)] slice_Nil [OF sp(2)] hs(1) sp(1) by simp_all
  then show ?thesis
    using split pre run_slice [OF ws] run_slice [OF hs(2)] run_slice [OF sp(2)] run_slice [OF t] c
    by blast
qed

subsection \<open>The sanitizer and the title\<close>

lemma deeplyParseHeader_apply [code]:
  "deeplyParseHeader s = trim (removeMarkdownTokens (unescapeHtml (removeNonCodeWrappedHTML s)))"
  by (simp add: deeplyParseHeader_def parseHeader_def)

text \<open>
  Claim C4, counterexample: the deep pipeline does not leave \<open>`<a>` b\<close> as it is.
\<close>

theorem deep_sanitizer_strips_backticks:
  "deeplyParseHeader ([BTK] @ ''<a>'' @ [BTK] @ '' b'') \<noteq> [BTK] @ ''<a>'' @ [BTK] @ '' b''"
  by code_simp

text \<open>
  Claim C4, amended. The deep pipeline maps \<open><a> b\<close> to \<open>b\<close>. Its first step, the removal
  of raw HTML, leaves \<open>`<a>` b\<close> as it is; the shallow pipeline then takes the pair of
  backticks away, so that the deep pipeline maps \<open>`<a>` b\<close> to \<open><a> b\<close>.
\<close>

theorem deep_sanitizer_examples:
  "deeplyParseHeader ''<a> b'' = ''b'' \<and>
   removeNonCodeWrappedHTML ([BTK] @ ''<a>'' @ [BTK] @ '' b'') = [BTK] @ ''<a>'' @ [BTK] @ '' b'' \<and>
   parseHeader ([BTK] @ ''<a>'' @ [BTK] @ '' b'') = ''<a> b'' \<and>
   deeplyParseHeader ([BTK] @ ''<a>'' @ [BTK] @ '' b'') = ''<a> b''"
proof -
  have 1: "deeplyParseHeader ''<a> b'' = ''b''" by code_simp
  have 2: "removeNonCodeWrappedHTML ([BTK] @ ''<a>'' @ [BTK] @ '' b'') =
      [BTK] @ ''<a>'' @ [BTK] @ '' b''" by code_simp
  have 3: "trim (removeMarkdownTokens (unescapeHtml ([BTK] @ ''<a>'' @ [BTK] @ '' b''))) =
      ''<a> b''" by code_simp
  have 4: "parseHeader ([BTK] @ ''<a>'' @ [BTK] @ '' b'') = ''<a> b''"
    using 3 by (simp add: parseHeader_def)
  have 5: "deeplyParseHeader ([BTK] @ ''<a>'' @ [BTK] @ '' b'') = ''<a> b''" by code_simp
  show ?thesis using 1 2 4 5 by blast
qed

text \<open>
  Claim C3, counterexample: for the body \<open>## A\<close>, \<open># B\<close> (two lines) and no frontmatter, the
  title is \<open>A\<close>, the text of the first heading, which is of level two; the first
  top-level heading line is \<open># B\<close>.
\<close>

theorem title_takes_any_heading_level:
  "inferTitle [] (''## A'' @ [NL] @ ''# B'') = ''A'' \<and>
   claimedTitle [] (''## A'' @ [NL] @ ''# B'') = ''B''"
proof -
  have 1: "inferTitle [] (''## A'' @ [NL] @ ''# B'') = ''A''" by code_simp
  have 2: "claimedTitle [] (''## A'' @ [NL] @ ''# B'') = ''B''" by code_simp
  show ?thesis using 1 2 by blast
qed

text \<open>
  Claim C3, amended. The title follows one chain, and one branch of it is taken: it is
  \<open>Home\<close> when the frontmatter's \<open>home\<close> is truthy; else the deeply sanitized text of the
  frontmatter's \<open>title\<close> when that is truthy; else, when the heading pattern matches in
  the body, the deeply sanitized, trimmed text \<open>t\<close> that the first match captured, where
  the match is a heading of any level: it starts at a line start \<open>pre\<close>, and is white
  space \<open>ws\<close>, one \<open>#\<close> or more \<open>hs\<close>, white space \<open>sp\<close> and the text \<open>t\<close>, which holds no line
  terminator; else the empty string.
\<close>

theorem inferTitle_precedence:
  "(truthy (obj_get fm ''home'') \<longrightarrow> inferTitle fm body = ''Home'') \<and>
   (\<not> truthy (obj_get fm ''home'') \<and> truthy (obj_get fm ''title'') \<longrightarrow>
      inferTitle fm body = deeplyParseHeader (js_String (obj_get fm ''title''))) \<and>
   (\<not> truthy (obj_get fm ''home'') \<and> \<not> truthy (obj_get fm ''title'') \<longrightarrow>
      (case headingMatch body of
         Some cs \<Rightarrow>
           \<exists>pre ws hs sp t rest.
             body = pre @ ws @ hs @ sp @ t @ rest \<and>
             (pre = [] \<or> isLineTerminator (last pre)) \<and>
             list_all isSpace ws \<and>
             hs \<noteq> [] \<and> list_all (\<lambda>c. c = CHR ''#'') hs \<and>
             sp \<noteq> [] \<and> list_all isSpace sp \<and>
             list_all (\<lambda>c. \<not> isLineTerminator c) t \<and>
             cs 1 = Some t \<and>
             inferTitle fm body = deeplyParseHeader (trim t)
       | None \<Rightarrow> inferTitle fm body = []))"
proof (cases "headingMatch body")
  case None
  then show ?thesis by (simp add: inferTitle_def)
next
  case (Some cs)
  obtain pre ws hs sp t rest where shape:
    "body = pre @ ws @ hs @ sp @ t @ rest" "pre = [] \<or> isLineTerminator (last pre)"
    "list_all isSpace ws" "hs \<noteq> []" "list_all (\<lambda>c. c = CHR ''#'') hs"
    "sp \<noteq> []" "list_all isSpace sp" "list_all (\<lambda>c. \<not> isLineTerminator c) t"
    "cs 1 = Some t"
    using headingMatch_shape [OF Some] by blast
  have 1: "truthy (obj_get fm ''home'') \<longrightarrow> inferTitle fm body = ''Home''"
    by (simp add: inferTitle_def)
  have 2: "\<not> truthy (obj_get fm ''home'') \<and> truthy (obj_get fm ''title'') \<longrightarrow>
      inferTitle fm body = deeplyParseHeader (js_String (obj_get fm ''title''))"
    by (simp add: inferTitle_def)
  have 3: "inferTitle fm body = deeplyParseHeader (trim t)"
    if "\<not> truthy (obj_get fm ''home'')" "\<not> truthy (obj_get fm ''title'')"
    using that Some shape(9) by (simp add: inferTitle_def)
  show ?thesis unfolding Some option.case using 1 2 3 shape by blast
qed

lemma heading_Hello: "map_option (\<lambda>cs. cs 1) (headingMatch ''# Hello'') = Some (Some ''Hello'')"
  by code_simp

lemma heading_none: "headingMatch ''Hello'' = None"
  by code_simp

lemma sanitize_T: "deeplyParseHeader ''T'' = ''T''"
  by code_simp

lemma sanitize_Hello: "deeplyParseHeader (trim ''Hello'') = ''Hello''"
  by code_simp

text \<open>
  Claim C3, witness: the four examples of the spec (8). \<open>home\<close> and a title give \<open>Home\<close>; a
  title gives the title; no frontmatter and the body \<open># Hello\<close> give \<open>Hello\<close>; no
  frontmatter and no heading give the empty string.
\<close>

theorem inferTitle_precedence_witness:
  "inferTitle [(''home'', JBool True), (''title'', JStr ''T'')] ''# Hello'' = ''Home'' \<and>
   inferTitle [(''title'', JStr ''T'')] ''# Hello'' = ''T'' \<and>
   inferTitle [] ''# Hello'' = ''Hello'' \<and>
   inferTitle [] ''Hello'' = []"
proof -
  have 1: "inferTitle [(''home'', JBool True), (''title'', JStr ''T'')] ''# Hello'' = ''Home''"
    using inferTitle_precedence [of "[(''home'', JBool True), (''title'', JStr ''T'')]" "''# Hello''"]
    by (simp add: obj_get_def)
  have 2: "inferTitle [(''title'', JStr ''T'')] ''# Hello'' = ''T''"
    using inferTitle_precedence [of "[(''title'', JStr ''T'')]" "''# Hello''"] sanitize_T
    by (simp add: obj_get_def)
  obtain cs where cs: "headingMatch ''# Hello'' = Some cs" "cs 1 = Some ''Hello''"
    using heading_Hello by auto
  have 3: "inferTitle [] ''# Hello'' = ''Hello''"
    using inferTitle_precedence [of "[]" "''# Hello''"] cs sanitize_Hello
    by (auto simp: obj_get_def)
  have 4: "inferTitle [] ''Hello'' = []"
    using inferTitle_precedence [of "[]" "''Hello''"] heading_none
    by (simp add: obj_get_def)
  show ?thesis using 1 2 3 4 by blast
qed

end
